theory Spec2Isabelle
  imports Main "HOL-Library.Sublist"
begin

section \<open>Python strings\<close>

text \<open>
  A Python \<open>str\<close> is modelled as a \<open>string\<close>, one \<open>char\<close> per code point, for the
  code points 0 to 255. The character classes below are those of CPython 3 on that
  range: \<open>str.isspace\<close> (which is also what \<open>\s\<close> matches in a \<open>str\<close> pattern),
  the word characters of \<open>\w\<close>, and \<open>str.lower\<close>.
\<close>

definition py_isspace :: "char \<Rightarrow> bool" where
  "py_isspace c = (c \<in> set [CHR 0x09, CHR 0x0A, CHR 0x0B, CHR 0x0C, CHR 0x0D,
     CHR 0x1C, CHR 0x1D, CHR 0x1E, CHR 0x1F, CHR 0x20, CHR 0x85, CHR 0xA0])"

definition py_isword :: "char \<Rightarrow> bool" where
  "py_isword c = (let n = (of_char c :: nat) in
     (48 \<le> n \<and> n \<le> 57) \<or> (65 \<le> n \<and> n \<le> 90) \<or> n = 95 \<or> (97 \<le> n \<and> n \<le> 122) \<or>
     n = 170 \<or> n = 178 \<or> n = 179 \<or> n = 181 \<or> n = 185 \<or> n = 186 \<or>
     (188 \<le> n \<and> n \<le> 190) \<or> (192 \<le> n \<and> n \<le> 214) \<or> (216 \<le> n \<and> n \<le> 246) \<or>
     (248 \<le> n \<and> n \<le> 255))"

definition upper_chars :: string where
  "upper_chars = ''ABCDEFGHIJKLMNOPQRSTUVWXYZ'' @
     [CHR 0xC0, CHR 0xC1, CHR 0xC2, CHR 0xC3, CHR 0xC4, CHR 0xC5, CHR 0xC6, CHR 0xC7,
      CHR 0xC8, CHR 0xC9, CHR 0xCA, CHR 0xCB, CHR 0xCC, CHR 0xCD, CHR 0xCE, CHR 0xCF,
      CHR 0xD0, CHR 0xD1, CHR 0xD2, CHR 0xD3, CHR 0xD4, CHR 0xD5, CHR 0xD6,
      CHR 0xD8, CHR 0xD9, CHR 0xDA, CHR 0xDB, CHR 0xDC, CHR 0xDD, CHR 0xDE]"

definition lower_chars :: string where
  "lower_chars = ''abcdefghijklmnopqrstuvwxyz'' @
     [CHR 0xE0, CHR 0xE1, CHR 0xE2, CHR 0xE3, CHR 0xE4, CHR 0xE5, CHR 0xE6, CHR 0xE7,
      CHR 0xE8, CHR 0xE9, CHR 0xEA, CHR 0xEB, CHR 0xEC, CHR 0xED, CHR 0xEE, CHR 0xEF,
      CHR 0xF0, CHR 0xF1, CHR 0xF2, CHR 0xF3, CHR 0xF4, CHR 0xF5, CHR 0xF6,
      CHR 0xF8, CHR 0xF9, CHR 0xFA, CHR 0xFB, CHR 0xFC, CHR 0xFD, CHR 0xFE]"

definition lower_char :: "char \<Rightarrow> char" where
  "lower_char c = (case map_of (zip upper_chars lower_chars) c of Some d \<Rightarrow> d | None \<Rightarrow> c)"

text \<open>\<open>s.lower()\<close>\<close>

definition py_lower :: "string \<Rightarrow> string" where
  "py_lower s = map lower_char s"

text \<open>\<open>s.strip()\<close>: leading and trailing whitespace removed.\<close>

definition py_strip :: "string \<Rightarrow> string" where
  "py_strip s = rev (dropWhile py_isspace (rev (dropWhile py_isspace s)))"

text \<open>\<open>s.startswith(p)\<close>\<close>

definition startswith :: "string \<Rightarrow> string \<Rightarrow> bool" where
  "startswith s p = prefix p s"

text \<open>\<open>sub in s\<close> for two strings: \<open>sub\<close> occurs in \<open>s\<close> as a substring.\<close>

fun str_contains :: "string \<Rightarrow> string \<Rightarrow> bool" where
  "str_contains sub [] = (sub = [])"
| "str_contains sub (c # cs) = (prefix sub (c # cs) \<or> str_contains sub cs)"

text \<open>\<open>s.count(c)\<close> for a one-character string \<open>c\<close>.\<close>

definition str_count :: "string \<Rightarrow> char \<Rightarrow> nat" where
  "str_count s c = length (filter (\<lambda>x. x = c) s)"

text \<open>
  \<open>s.replace(old, new)\<close> for a non-empty \<open>old\<close>: the occurrences of \<open>old\<close> are found
  from left to right, without overlap. (With an empty \<open>old\<close> Python inserts \<open>new\<close>
  between all characters; the program never does that, and the model then returns \<open>s\<close>.)
\<close>

fun str_replace :: "string \<Rightarrow> string \<Rightarrow> string \<Rightarrow> string" where
  "str_replace old new [] = []"
| "str_replace old new (c # cs) =
     (if old \<noteq> [] \<and> prefix old (c # cs)
      then new @ str_replace old new (drop (length old) (c # cs))
      else c # str_replace old new cs)"

text \<open>
  \<open>s.split(sep)\<close> for a non-empty \<open>sep\<close>: \<open>split_acc sep cur s\<close> is the list of pieces
  of \<open>s\<close>, the first one prefixed by the characters \<open>cur\<close> read so far.
\<close>

fun split_acc :: "string \<Rightarrow> string \<Rightarrow> string \<Rightarrow> string list" where
  "split_acc sep cur [] = [cur]"
| "split_acc sep cur (c # cs) =
     (if sep \<noteq> [] \<and> prefix sep (c # cs)
      then cur # split_acc sep [] (drop (length sep) (c # cs))
      else split_acc sep (cur @ [c]) cs)"

definition str_split :: "string \<Rightarrow> string \<Rightarrow> string list" where
  "str_split s sep = split_acc sep [] s"

text \<open>\<open>str(n)\<close> for a natural number: its decimal digits.\<close>

definition digit_char :: "nat \<Rightarrow> char" where
  "digit_char d = (''0123456789'' ! d)"

fun str_of_nat :: "nat \<Rightarrow> string" where
  "str_of_nat n = (if n < 10 then [digit_char n] else str_of_nat (n div 10) @ [digit_char (n mod 10)])"

section \<open>ValidationResult (validators.py)\<close>

record ValidationResult =
  valid :: bool
  errors :: "string list"
  warnings :: "string list"
  suggestions :: "string list"

text \<open>\<open>ValidationResult()\<close>\<close>

definition new_result :: ValidationResult where
  "new_result = \<lparr>valid = True, errors = [], warnings = [], suggestions = []\<rparr>"

definition add_error :: "ValidationResult \<Rightarrow> string \<Rightarrow> ValidationResult" where
  "add_error r message = r\<lparr>valid := False, errors := errors r @ [message]\<rparr>"

definition add_warning :: "ValidationResult \<Rightarrow> string \<Rightarrow> ValidationResult" where
  "add_warning r message = r\<lparr>warnings := warnings r @ [message]\<rparr>"

definition add_suggestion :: "ValidationResult \<Rightarrow> string \<Rightarrow> ValidationResult" where
  "add_suggestion r message = r\<lparr>suggestions := suggestions r @ [message]\<rparr>"

text \<open>A call of one of the three mutators, and a sequence of such calls on a result.\<close>

datatype result_call = AddError string | AddWarning string | AddSuggestion string

fun apply_call :: "ValidationResult \<Rightarrow> result_call \<Rightarrow> ValidationResult" where
  "apply_call r (AddError m) = add_error r m"
| "apply_call r (AddWarning m) = add_warning r m"
| "apply_call r (AddSuggestion m) = add_suggestion r m"

definition apply_calls :: "ValidationResult \<Rightarrow> result_call list \<Rightarrow> ValidationResult" where
  "apply_calls r cs = foldl apply_call r cs"

section \<open>validate_terraform_syntax\<close>

text \<open>The provider pattern is the word \<open>provider\<close>, a space and a double quote.\<close>

definition validate_terraform_syntax :: "string \<Rightarrow> ValidationResult" where
  "validate_terraform_syntax content =
     (let result = new_result in
      if py_strip content = [] then add_error result ''Empty Terraform file''
      else
        let open_braces = str_count content CHR ''{'';
            close_braces = str_count content CHR ''}'';
            result = (if open_braces \<noteq> close_braces
                      then add_error result (''Unbalanced braces: '' @ str_of_nat open_braces @
                             '' opening, '' @ str_of_nat close_braces @ '' closing'')
                      else result);
            result = (if \<not> str_contains (''provider '' @ [CHR 0x22]) content
                      then add_warning result ''No provider block found'' else result);
            result = (if \<not> str_contains ''terraform {'' content
                      then add_suggestion result
                             ''Consider adding terraform block with required_version''
                      else result)
        in result)"

section \<open>validate_dockerfile\<close>

text \<open>The first loop: is there a line whose stripped form starts with \<open>FROM\<close>.\<close>

fun find_from :: "string list \<Rightarrow> bool" where
  "find_from [] = False"
| "find_from (line # rest) = (if startswith (py_strip line) ''FROM'' then True else find_from rest)"

text \<open>
  The second loop, over \<open>enumerate(lines)\<close>: \<open>i\<close> is the index of the head of the
  remaining lines, the pair is \<open>(copy_index, run_index)\<close>.
\<close>

fun scan_copy_run :: "string list \<Rightarrow> nat \<Rightarrow> int \<times> int \<Rightarrow> int \<times> int" where
  "scan_copy_run [] i (copy_index, run_index) = (copy_index, run_index)"
| "scan_copy_run (line # rest) i (copy_index, run_index) =
     scan_copy_run rest (i + 1)
       (if startswith (py_strip line) ''COPY'' then (int i, run_index)
        else if startswith (py_strip line) ''RUN'' \<and> run_index = - 1 then (copy_index, int i)
        else (copy_index, run_index))"

definition layer_caching_suggestion :: string where
  "layer_caching_suggestion =
     ''Consider copying dependency files before RUN for better layer caching''"

definition dockerfile_lines :: "string \<Rightarrow> string list" where
  "dockerfile_lines content = str_split (py_strip content) ''\<newline>''"

definition validate_dockerfile :: "string \<Rightarrow> ValidationResult" where
  "validate_dockerfile content =
     (let result = new_result;
          lines = dockerfile_lines content;
          has_from = find_from lines;
          result = (if \<not> has_from
                    then add_error result ''Dockerfile must start with FROM instruction''
                    else result);
          result = (if \<not> str_contains ''WORKDIR'' content
                    then add_suggestion result ''Consider using WORKDIR to set working directory''
                    else result);
          result = (if \<not> str_contains ''USER'' content
                    then add_suggestion result
                           ''Consider adding USER instruction to run as non-root''
                    else result);
          (copy_index, run_index) = scan_copy_run lines 0 (- 1, - 1)
      in if copy_index > - 1 \<and> run_index > - 1 \<and> copy_index > run_index
         then add_suggestion result layer_caching_suggestion
         else result)"

section \<open>Stripping code fences (generators)\<close>

text \<open>
  \<open>K8sGenerator._parse_output\<close>:
  \<open>content.replace('```yaml', '').replace('```', '').strip()\<close>, and
  \<open>TerraformGenerator._parse_output\<close>:
  \<open>content.replace('```hcl', '').replace('```terraform', '').replace('```', '').strip()\<close>.
\<close>

definition k8s_strip_fences :: "string \<Rightarrow> string" where
  "k8s_strip_fences content =
     py_strip (str_replace ''```'' [] (str_replace ''```yaml'' [] content))"

definition tf_strip_fences :: "string \<Rightarrow> string" where
  "tf_strip_fences content =
     py_strip (str_replace ''```'' []
       (str_replace ''```terraform'' [] (str_replace ''```hcl'' [] content)))"

section \<open>Parsed YAML and the Python operations on it\<close>

text \<open>
  \<open>yaml.safe_load\<close> is a library function. It is a parameter \<open>safe_load\<close> of the
  validators below: on a string it returns a value, raises \<open>yaml.YAMLError\<close>, or
  raises another exception (any Python call can; PyYAML does so from its scalar
  constructors, for instance \<open>ValueError\<close> from \<open>datetime.date\<close> on the plain scalar
  \<open>2001-13-01\<close>).

  A value is what \<open>safe_load\<close> can build: \<open>None\<close>, a bool, an int, a float, a str,
  bytes, a date, a datetime, a list, a set, or a dict (an association list with
  distinct keys). A float, bytes, a date and a datetime are kept as their text: the
  validators only test them for membership.
\<close>

datatype py_exception = PyException (exc_class: string) (exc_message: string)

text \<open>\<open>str(e)\<close>\<close>

definition str_exception :: "py_exception \<Rightarrow> string" where
  "str_exception e = exc_message e"

datatype yaml =
    YNone
  | YBool bool
  | YInt int
  | YFloat string
  | YStr string
  | YBytes string
  | YDate string
  | YDatetime string
  | YList "yaml list"
  | YSet "yaml list"
  | YDict "(yaml \<times> yaml) list"

datatype load_outcome = Loaded yaml | YAMLError string | Raised py_exception

text \<open>The name of the type of a value, as CPython's messages print it.\<close>

fun type_name :: "yaml \<Rightarrow> string" where
  "type_name YNone = ''NoneType''"
| "type_name (YBool b) = ''bool''"
| "type_name (YInt n) = ''int''"
| "type_name (YFloat x) = ''float''"
| "type_name (YStr s) = ''str''"
| "type_name (YBytes b) = ''bytes''"
| "type_name (YDate d) = ''datetime.date''"
| "type_name (YDatetime d) = ''datetime.datetime''"
| "type_name (YList xs) = ''list''"
| "type_name (YSet xs) = ''set''"
| "type_name (YDict kvs) = ''dict''"

text \<open>A text between single quotes.\<close>

definition quoted :: "string \<Rightarrow> string" where
  "quoted s = [CHR 0x27] @ s @ [CHR 0x27]"

text \<open>
  \<open>key in v\<close> for a str \<open>key\<close>: key membership for a dict, element membership for a
  list or a set, substring for a str, and \<open>TypeError\<close> for the other values. The
  messages of the exceptions, here and below, are those of CPython 3.11.
\<close>

fun py_in :: "string \<Rightarrow> yaml \<Rightarrow> py_exception + bool" where
  "py_in key (YDict kvs) = Inr (YStr key \<in> set (map fst kvs))"
| "py_in key (YList xs) = Inr (YStr key \<in> set xs)"
| "py_in key (YSet xs) = Inr (YStr key \<in> set xs)"
| "py_in key (YStr s) = Inr (str_contains key s)"
| "py_in key (YBytes b) =
     Inl (PyException ''TypeError'' (''a bytes-like object is required, not '' @ quoted ''str''))"
| "py_in key v =
     Inl (PyException ''TypeError''
            (''argument of type '' @ quoted (type_name v) @ '' is not iterable''))"

text \<open>
  \<open>v[key]\<close> for a str \<open>key\<close>. (The text of a \<open>KeyError\<close> is \<open>repr(key)\<close>, which is
  the key between single quotes for the keys the validator subscripts with.)
\<close>

fun py_getitem :: "yaml \<Rightarrow> string \<Rightarrow> py_exception + yaml" where
  "py_getitem (YDict kvs) key =
     (case map_of kvs (YStr key) of
        Some x \<Rightarrow> Inr x
      | None \<Rightarrow> Inl (PyException ''KeyError'' (quoted key)))"
| "py_getitem (YStr s) key =
     Inl (PyException ''TypeError'' (''string indices must be integers, not '' @ quoted ''str''))"
| "py_getitem (YBytes b) key =
     Inl (PyException ''TypeError'' ''byte indices must be integers or slices, not str'')"
| "py_getitem (YList xs) key =
     Inl (PyException ''TypeError'' ''list indices must be integers or slices, not str'')"
| "py_getitem v key =
     Inl (PyException ''TypeError'' (quoted (type_name v) @ '' object is not subscriptable''))"

text \<open>\<open>v.get(key, dflt)\<close>: only a dict has the method.\<close>

fun py_get :: "yaml \<Rightarrow> string \<Rightarrow> yaml \<Rightarrow> py_exception + yaml" where
  "py_get (YDict kvs) key dflt =
     Inr (case map_of kvs (YStr key) of Some x \<Rightarrow> x | None \<Rightarrow> dflt)"
| "py_get v key dflt =
     Inl (PyException ''AttributeError''
            (quoted (type_name v) @ '' object has no attribute '' @ quoted ''get''))"

text \<open>Sequencing of computations that may raise.\<close>

definition and_then :: "'e + 'a \<Rightarrow> ('a \<Rightarrow> 'e + 'b) \<Rightarrow> 'e + 'b" where
  "and_then m f = (case m of Inl e \<Rightarrow> Inl e | Inr a \<Rightarrow> f a)"

text \<open>
  A statement of the \<open>try\<close> body either raises, and then the handler sees the result
  object as it is at that moment, or finishes with the (possibly mutated) result.
\<close>

definition raising :: "ValidationResult \<Rightarrow> py_exception + 'a \<Rightarrow>
    (py_exception \<times> ValidationResult) + 'a" where
  "raising r m = (case m of Inl e \<Rightarrow> Inl (e, r) | Inr a \<Rightarrow> Inr a)"

section \<open>validate_yaml_syntax\<close>

definition validate_yaml_syntax ::
    "(string \<Rightarrow> load_outcome) \<Rightarrow> string \<Rightarrow> py_exception + ValidationResult" where
  "validate_yaml_syntax safe_load content =
     (let result = new_result in
      case safe_load content of
        Loaded v \<Rightarrow> Inr result
      | YAMLError e \<Rightarrow> Inr (add_error result (''YAML syntax error: '' @ e))
      | Raised x \<Rightarrow> Inl x)"

section \<open>validate_kubernetes_manifest\<close>

text \<open>\<open>if key not in manifest: result.add_error(message)\<close>\<close>

definition require_field :: "string \<Rightarrow> string \<Rightarrow> yaml \<Rightarrow> ValidationResult \<Rightarrow>
    (py_exception \<times> ValidationResult) + ValidationResult" where
  "require_field key message manifest result =
     raising result
       (and_then (py_in key manifest)
          (\<lambda>present. Inr (if \<not> present then add_error result message else result)))"

text \<open>The metadata check (the first \<open>if "metadata" in manifest\<close> block).\<close>

definition check_metadata :: "yaml \<Rightarrow> ValidationResult \<Rightarrow>
    (py_exception \<times> ValidationResult) + ValidationResult" where
  "check_metadata manifest result =
     raising result
       (and_then (py_in ''metadata'' manifest) (\<lambda>has_metadata.
          if has_metadata
          then and_then (py_getitem manifest ''metadata'') (\<lambda>metadata.
               and_then (py_in ''name'' metadata) (\<lambda>has_name.
                 Inr (if \<not> has_name
                      then add_error result ''Missing required field: metadata.name''
                      else result)))
          else Inr result))"

text \<open>The Deployment branch, first statement: \<open>spec\<close> and \<open>replicas\<close>.\<close>

definition check_deployment_spec :: "yaml \<Rightarrow> ValidationResult \<Rightarrow>
    (py_exception \<times> ValidationResult) + ValidationResult" where
  "check_deployment_spec manifest result =
     raising result
       (and_then (py_in ''spec'' manifest) (\<lambda>has_spec.
          if \<not> has_spec then Inr (add_error result ''Deployment missing spec field'')
          else and_then (py_getitem manifest ''spec'') (\<lambda>spec.
               and_then (py_in ''replicas'' spec) (\<lambda>has_replicas.
                 Inr (if \<not> has_replicas
                      then add_warning result
                             ''Deployment spec missing replicas (will default to 1)''
                      else result)))))"

definition security_context_suggestion :: string where
  "security_context_suggestion = ''Consider adding securityContext for pod security''"

text \<open>The Deployment branch, second statement: the security context.\<close>

definition check_security_context :: "yaml \<Rightarrow> ValidationResult \<Rightarrow>
    (py_exception \<times> ValidationResult) + ValidationResult" where
  "check_security_context manifest result =
     raising result
       (and_then (py_in ''spec'' manifest) (\<lambda>has_spec.
          if \<not> has_spec then Inr result
          else and_then (py_getitem manifest ''spec'') (\<lambda>spec.
               and_then (py_in ''template'' spec) (\<lambda>has_template.
                 if \<not> has_template then Inr result
                 else and_then (py_getitem spec ''template'') (\<lambda>template.
                      and_then (py_get template ''spec'' (YDict [])) (\<lambda>template_spec.
                      and_then (py_in ''securityContext'' template_spec) (\<lambda>has_context.
                        Inr (if \<not> has_context
                             then add_suggestion result security_context_suggestion
                             else result))))))))"

text \<open>The Service branch.\<close>

definition check_service :: "yaml \<Rightarrow> ValidationResult \<Rightarrow>
    (py_exception \<times> ValidationResult) + ValidationResult" where
  "check_service manifest result =
     raising result
       (and_then (py_in ''spec'' manifest) (\<lambda>has_spec.
          if \<not> has_spec then Inr (add_error result ''Service missing spec field'')
          else and_then (py_getitem manifest ''spec'') (\<lambda>spec.
               and_then (py_in ''ports'' spec) (\<lambda>has_ports.
                 Inr (if \<not> has_ports
                      then add_error result ''Service spec missing ports''
                      else result)))))"

text \<open>The kind-specific part, from \<open>kind = manifest.get("kind", "")\<close> on.\<close>

definition check_kind :: "yaml \<Rightarrow> ValidationResult \<Rightarrow>
    (py_exception \<times> ValidationResult) + ValidationResult" where
  "check_kind manifest result =
     and_then (raising result (py_get manifest ''kind'' (YStr [])))
       (\<lambda>kind.
          if kind = YStr ''Deployment''
          then and_then (check_deployment_spec manifest result) (check_security_context manifest)
          else if kind = YStr ''Service'' then check_service manifest result
          else Inr result)"

text \<open>The statements of the \<open>try\<close> body after the second \<open>safe_load\<close>.\<close>

definition inspect_manifest :: "yaml \<Rightarrow> ValidationResult \<Rightarrow>
    (py_exception \<times> ValidationResult) + ValidationResult" where
  "inspect_manifest manifest result =
     and_then (require_field ''apiVersion'' ''Missing required field: apiVersion'' manifest result)
       (\<lambda>result.
     and_then (require_field ''kind'' ''Missing required field: kind'' manifest result)
       (\<lambda>result.
     and_then (require_field ''metadata'' ''Missing required field: metadata'' manifest result)
       (\<lambda>result.
     and_then (check_metadata manifest result)
       (check_kind manifest))))"

text \<open>
  The \<open>try\<close> body: the document is loaded a second time, inside the \<open>try\<close>, and
  inspected.
\<close>

definition try_body :: "(string \<Rightarrow> load_outcome) \<Rightarrow> string \<Rightarrow> ValidationResult \<Rightarrow>
    (py_exception \<times> ValidationResult) + ValidationResult" where
  "try_body safe_load content result =
     (case safe_load content of
        Loaded manifest \<Rightarrow> inspect_manifest manifest result
      | YAMLError e \<Rightarrow> Inl (PyException ''YAMLError'' e, result)
      | Raised x \<Rightarrow> Inl (x, result))"

text \<open>
  \<open>validate_yaml_syntax\<close> is called before the \<open>try\<close>: what it raises leaves the
  function. \<open>except Exception as e\<close> turns what the \<open>try\<close> body raises into one more
  error on the result.
\<close>

definition validate_kubernetes_manifest ::
    "(string \<Rightarrow> load_outcome) \<Rightarrow> string \<Rightarrow> py_exception + ValidationResult" where
  "validate_kubernetes_manifest safe_load content =
     and_then (validate_yaml_syntax safe_load content) (\<lambda>result.
       if \<not> valid result then Inr result
       else (case try_body safe_load content result of
               Inr result \<Rightarrow> Inr result
             | Inl (e, result) \<Rightarrow>
                 Inr (add_error result (''Validation error: '' @ str_exception e))))"

text \<open>
  For the proofs: the result object a statement of the \<open>try\<close> body leaves behind,
  whether it raised or not, and the statements that leave its suggestions alone.
\<close>

definition outcome_result ::
    "(py_exception \<times> ValidationResult) + ValidationResult \<Rightarrow> ValidationResult" where
  "outcome_result x = (case x of Inl (e, r) \<Rightarrow> r | Inr r \<Rightarrow> r)"

definition keeps_suggestions ::
    "(ValidationResult \<Rightarrow> (py_exception \<times> ValidationResult) + ValidationResult) \<Rightarrow> bool" where
  "keeps_suggestions f = (\<forall>r. suggestions (outcome_result (f r)) = suggestions r)"



section \<open>validate_generated_code\<close>

text \<open>
  The dictionary of validators and \<open>validators.get(code_type, validate_yaml_syntax)\<close>.
  The Terraform and Dockerfile validators raise nothing.
\<close>

definition validate_generated_code ::
    "(string \<Rightarrow> load_outcome) \<Rightarrow> string \<Rightarrow> string \<Rightarrow> py_exception + ValidationResult" where
  "validate_generated_code safe_load content code_type =
     (if code_type = ''kubernetes'' then validate_kubernetes_manifest safe_load content
      else if code_type = ''terraform'' then Inr (validate_terraform_syntax content)
      else if code_type = ''docker'' then Inr (validate_dockerfile content)
      else validate_yaml_syntax safe_load content)"

section \<open>Regular expressions of the generators\<close>

text \<open>
  The two patterns of \<open>K8sGenerator._parse_output\<close> are sequences of literal characters,
  greedy repetitions \<open>c*\<close> and \<open>c+\<close> of a character class, and one capturing group.
  \<open>re_match\<close> is the backtracking matcher of Python's \<open>re\<close> on such a sequence, at the
  start of a string: a repetition first takes as many characters as it can and gives
  them back one by one while the rest of the pattern fails. It returns the text of the
  group and the rest of the string after the match; \<open>g\<close> says whether the group is
  open, \<open>acc\<close> is the text it has captured so far.
\<close>

datatype re_item = Chr char | Star "char \<Rightarrow> bool" | Plus "char \<Rightarrow> bool" | GroupOpen | GroupClose

fun re_match :: "re_item list \<Rightarrow> string \<Rightarrow> bool \<Rightarrow> string \<Rightarrow> (string \<times> string) option" where
  "re_match [] s g acc = Some (acc, s)"
| "re_match (Chr c # items) [] g acc = None"
| "re_match (Chr c # items) (x # xs) g acc =
     (if x = c then re_match items xs g (if g then acc @ [x] else acc) else None)"
| "re_match (Star p # items) [] g acc = re_match items [] g acc"
| "re_match (Star p # items) (x # xs) g acc =
     (if p x
      then (case re_match (Star p # items) xs g (if g then acc @ [x] else acc) of
              Some m \<Rightarrow> Some m
            | None \<Rightarrow> re_match items (x # xs) g acc)
      else re_match items (x # xs) g acc)"
| "re_match (Plus p # items) [] g acc = None"
| "re_match (Plus p # items) (x # xs) g acc =
     (if p x then re_match (Star p # items) xs g (if g then acc @ [x] else acc) else None)"
| "re_match (GroupOpen # items) s g acc = re_match items s True []"
| "re_match (GroupClose # items) s g acc = re_match items s False acc"

text \<open>
  \<open>re.search\<close>: the match at the leftmost position where there is one, as the text
  before the match, the group, and the text after the match.
\<close>

fun re_search :: "re_item list \<Rightarrow> string \<Rightarrow> (string \<times> string \<times> string) option" where
  "re_search pat [] =
     (case re_match pat [] False [] of
        Some (grp, rest) \<Rightarrow> Some ([], grp, rest)
      | None \<Rightarrow> None)"
| "re_search pat (c # cs) =
     (case re_match pat (c # cs) False [] of
        Some (grp, rest) \<Rightarrow> Some ([], grp, rest)
      | None \<Rightarrow>
          (case re_search pat cs of
             Some (before, grp, rest) \<Rightarrow> Some (c # before, grp, rest)
           | None \<Rightarrow> None))"

definition literal :: "string \<Rightarrow> re_item list" where
  "literal s = map Chr s"

text \<open>\<open>r'---\s*\n#\s*FILE:\s*(\S+)\s*\n'\<close>\<close>

definition file_pattern :: "re_item list" where
  "file_pattern =
     literal ''---'' @ [Star py_isspace, Chr CHR ''\<newline>'', Chr CHR ''#'', Star py_isspace] @
     literal ''FILE:'' @
     [Star py_isspace, GroupOpen, Plus (\<lambda>c. \<not> py_isspace c), GroupClose,
      Star py_isspace, Chr CHR ''\<newline>'']"

text \<open>\<open>r'kind:\s*(\w+)'\<close>\<close>

definition kind_pattern :: "re_item list" where
  "kind_pattern = literal ''kind:'' @ [Star py_isspace, GroupOpen, Plus py_isword, GroupClose]"

section \<open>K8sGenerator._parse_output\<close>

text \<open>
  A Python dict keeps its keys in the order of their first insertion; an assignment to
  a key that is there replaces the value in place.
\<close>

fun dict_set :: "('k \<times> 'v) list \<Rightarrow> 'k \<Rightarrow> 'v \<Rightarrow> ('k \<times> 'v) list" where
  "dict_set [] k v = [(k, v)]"
| "dict_set ((k', v') # m) k v =
     (if k' = k then (k', v) # m else (k', v') # dict_set m k v)"

text \<open>
  \<open>re.split(file_pattern, output)\<close>, for this pattern with its one group: the text
  before the first match, then for each match the group and the text up to the next
  match (up to the end after the last one). A match of this pattern is never empty, so
  the rest is always shorter (lemma \<open>split_file_pattern_unfold\<close> below); the test on the
  lengths only makes the recursion well-founded by definition.
\<close>

function split_file_pattern :: "string \<Rightarrow> string list" where
  "split_file_pattern s =
     (case re_search file_pattern s of
        None \<Rightarrow> [s]
      | Some (before, grp, rest) \<Rightarrow>
          if length rest < length s then before # grp # split_file_pattern rest else [s])"
  by pat_completeness auto
termination
  by (relation "measure length") auto

declare split_file_pattern.simps [simp del]

text \<open>
  \<open>for i in range(1, len(splits), 2): if i + 1 < len(splits): ...\<close>
\<close>

function markers_loop :: "string list \<Rightarrow> nat \<Rightarrow> (string \<times> string) list \<Rightarrow> (string \<times> string) list" where
  "markers_loop splits i manifests =
     (if i < length splits
      then markers_loop splits (i + 2)
             (if i + 1 < length splits
              then let filename = py_strip (splits ! i);
                       content = py_strip (splits ! (i + 1));
                       content = k8s_strip_fences content
                   in dict_set manifests filename content
              else manifests)
      else manifests)"
  by pat_completeness auto
termination
  by (relation "measure (\<lambda>(splits, i, manifests). length splits - i)") auto

declare markers_loop.simps [simp del]

text \<open>
  The fallback: \<open>docs = [doc.strip() for doc in output.split('---') if doc.strip()]\<close>.
\<close>

definition fallback_docs :: "string \<Rightarrow> string list" where
  "fallback_docs output =
     map py_strip (filter (\<lambda>doc. py_strip doc \<noteq> []) (str_split output ''---''))"

text \<open>
  The name a fragment is stored under: from the \<open>kind\<close> match if there is one, from the
  index \<open>i\<close> of \<open>enumerate(docs)\<close> otherwise.
\<close>

definition derive_filename :: "nat \<Rightarrow> string \<Rightarrow> string" where
  "derive_filename i doc =
     (case re_search kind_pattern doc of
        Some (before, kind_text, rest) \<Rightarrow> py_lower kind_text @ ''.yaml''
      | None \<Rightarrow> ''manifest-'' @ str_of_nat (i + 1) @ ''.yaml'')"

text \<open>
  The loop over \<open>enumerate(docs)\<close>; \<open>i\<close> is the index of the head of the remaining
  fragments. Nothing in the body of the \<open>try\<close> raises on a str, so its bare \<open>except\<close>
  has no case here.
\<close>

fun fallback_loop :: "string list \<Rightarrow> nat \<Rightarrow> (string \<times> string) list \<Rightarrow> (string \<times> string) list" where
  "fallback_loop [] i manifests = manifests"
| "fallback_loop (doc # rest) i manifests =
     (let doc = k8s_strip_fences doc
      in fallback_loop rest (i + 1) (dict_set manifests (derive_filename i doc) doc))"

definition parse_output :: "string \<Rightarrow> (string \<times> string) list" where
  "parse_output output =
     (let splits = split_file_pattern output;
          manifests = markers_loop splits 1 []
      in if manifests = [] then fallback_loop (fallback_docs output) 0 manifests
         else manifests)"

section \<open>The assignments made by \<open>_parse_output\<close>\<close>

text \<open>
  The pairs that the marker loop reads from the pieces
  \<open>[preamble, filename_1, content_1, filename_2, content_2, ...]\<close>, from index 1 on:
  the elements at \<open>i\<close> and \<open>i + 1\<close>; a last element without a partner gives no pair.
\<close>

fun pieces_pairs :: "string list \<Rightarrow> (string \<times> string) list" where
  "pieces_pairs (name # content # rest) = (name, content) # pieces_pairs rest"
| "pieces_pairs [name] = []"
| "pieces_pairs [] = []"

text \<open>The markers of an output: the captured filename and the text that follows, in order.\<close>

definition marker_entries :: "string \<Rightarrow> (string \<times> string) list" where
  "marker_entries output = pieces_pairs (tl (split_file_pattern output))"

text \<open>The assignments \<open>manifests[filename] = content\<close> of the marker loop, in order.\<close>

definition marker_writes :: "string \<Rightarrow> (string \<times> string) list" where
  "marker_writes output =
     map (\<lambda>(name, content). (py_strip name, k8s_strip_fences (py_strip content)))
       (marker_entries output)"

text \<open>The assignments of the fallback loop, in order.\<close>

definition fallback_writes :: "string \<Rightarrow> (string \<times> string) list" where
  "fallback_writes output =
     map (\<lambda>(i, doc). (derive_filename i (k8s_strip_fences doc), k8s_strip_fences doc))
       (enumerate 0 (fallback_docs output))"

text \<open>The assignments of the path that \<open>_parse_output\<close> returns from.\<close>

definition parse_writes :: "string \<Rightarrow> (string \<times> string) list" where
  "parse_writes output =
     (if marker_writes output = [] then fallback_writes output else marker_writes output)"

text \<open>A sequence of assignments \<open>d[k] = v\<close> to a dict.\<close>

definition dict_set_all :: "('k \<times> 'v) list \<Rightarrow> ('k \<times> 'v) list \<Rightarrow> ('k \<times> 'v) list" where
  "dict_set_all m kvs = foldl (\<lambda>m (k, v). dict_set m k v) m kvs"

section \<open>The kind pattern in a fragment, in the words of the specification\<close>

text \<open>
  An occurrence of \<open>kind: <identifier>\<close> in a fragment: the text \<open>before\<close> it, then
  \<open>kind:\<close>, whitespace (possibly none), and the identifier, a non-empty run of word
  characters that the \<open>rest\<close> of the fragment does not continue.
\<close>

definition kind_match :: "string \<Rightarrow> string \<Rightarrow> string \<Rightarrow> string \<Rightarrow> bool" where
  "kind_match doc before ident rest =
     (\<exists>ws. doc = before @ ''kind:'' @ ws @ ident @ rest \<and> list_all py_isspace ws \<and>
           ident \<noteq> [] \<and> list_all py_isword ident \<and> (rest = [] \<or> \<not> py_isword (hd rest)))"

text \<open>The first occurrence in the fragment.\<close>

definition first_kind_match :: "string \<Rightarrow> string \<Rightarrow> string \<Rightarrow> string \<Rightarrow> bool" where
  "first_kind_match doc before ident rest =
     (kind_match doc before ident rest \<and>
      (\<forall>before' ident' rest'. kind_match doc before' ident' rest' \<longrightarrow>
          length before \<le> length before'))"

section \<open>Properties of the result container\<close>

lemma valid_apply_call:
  "valid r = (errors r = []) \<Longrightarrow> valid (apply_call r c) = (errors (apply_call r c) = [])"
  by (cases c) (simp_all add: add_error_def add_warning_def add_suggestion_def)

lemma valid_foldl_apply_call:
  "valid r = (errors r = []) \<Longrightarrow>
   valid (foldl apply_call r cs) = (errors (foldl apply_call r cs) = [])"
proof (induction cs arbitrary: r)
  case Nil
  then show ?case by simp
next
  case (Cons c cs)
  have "valid (apply_call r c) = (errors (apply_call r c) = [])"
    using Cons.prems by (rule valid_apply_call)
  then show ?case
    using Cons.IH [of "apply_call r c"] by simp
qed

text \<open>
  Claim C5. Whatever sequence of \<open>add_error\<close>, \<open>add_warning\<close> and \<open>add_suggestion\<close>
  calls is applied to a fresh result, \<open>valid\<close> is true exactly when \<open>errors\<close> is empty;
  \<open>add_error\<close> sets \<open>valid\<close> to false and appends its message to \<open>errors\<close>;
  \<open>add_warning\<close> and \<open>add_suggestion\<close> append to their own list and leave \<open>valid\<close>
  and \<open>errors\<close> as they were.
\<close>

theorem C5_valid_iff_no_errors:
  "valid (apply_calls new_result cs) = (errors (apply_calls new_result cs) = [])
   \<and> valid (add_error r m) = False
   \<and> errors (add_error r m) = errors r @ [m]
   \<and> valid (add_warning r m) = valid r
   \<and> errors (add_warning r m) = errors r
   \<and> warnings (add_warning r m) = warnings r @ [m]
   \<and> valid (add_suggestion r m) = valid r
   \<and> errors (add_suggestion r m) = errors r
   \<and> suggestions (add_suggestion r m) = suggestions r @ [m]"
proof -
  have "valid new_result = (errors new_result = [])"
    by (simp add: new_result_def)
  then have "valid (foldl apply_call new_result cs) = (errors (foldl apply_call new_result cs) = [])"
    by (rule valid_foldl_apply_call)
  then show ?thesis
    by (simp add: apply_calls_def add_error_def add_warning_def add_suggestion_def)
qed

section \<open>Properties of strip\<close>

lemma dropWhile_all: "\<forall>c \<in> set s. P c \<Longrightarrow> dropWhile P s = []"
  by (induction s) auto

lemma py_strip_all_space: "\<forall>c \<in> set s. py_isspace c \<Longrightarrow> py_strip s = []"
  by (simp add: py_strip_def dropWhile_all)

lemma py_strip_empty_iff: "py_strip s = [] \<longleftrightarrow> (\<forall>c \<in> set s. py_isspace c)"
proof
  assume "py_strip s = []"
  then have a: "\<forall>c \<in> set (dropWhile py_isspace s). py_isspace c"
    by (simp add: py_strip_def dropWhile_eq_Nil_conv)
  have "dropWhile py_isspace s = []"
  proof (rule ccontr)
    assume n: "dropWhile py_isspace s \<noteq> []"
    then have "\<not> py_isspace (hd (dropWhile py_isspace s))"
      by (rule hd_dropWhile)
    moreover have "hd (dropWhile py_isspace s) \<in> set (dropWhile py_isspace s)"
      using n by simp
    ultimately show False using a by blast
  qed
  then show "\<forall>c \<in> set s. py_isspace c"
    by (simp add: dropWhile_eq_Nil_conv)
next
  assume "\<forall>c \<in> set s. py_isspace c"
  then show "py_strip s = []" by (rule py_strip_all_space)
qed

text \<open>
  Claim C9. On an input that is empty or consists of whitespace only,
  \<open>validate_terraform_syntax\<close> returns an invalid result with exactly the one error
  \<open>Empty Terraform file\<close>, no warning and no suggestion.
\<close>

theorem C9_empty_terraform:
  assumes "\<forall>c \<in> set content. py_isspace c"
  shows "validate_terraform_syntax content =
           \<lparr>valid = False, errors = [''Empty Terraform file''], warnings = [], suggestions = []\<rparr>"
proof -
  have "py_strip content = []"
    using assms by (rule py_strip_all_space)
  then show ?thesis
    by (simp add: validate_terraform_syntax_def new_result_def add_error_def)
qed

theorem C9_empty_terraform_witness:
  "list_all py_isspace '' \<newline>  '' \<and>
   validate_terraform_syntax '' \<newline>  '' =
     \<lparr>valid = False, errors = [''Empty Terraform file''], warnings = [], suggestions = []\<rparr>"
proof -
  have h: "\<forall>c \<in> set '' \<newline>  ''. py_isspace c"
    by (simp add: py_isspace_def)
  show ?thesis
    using h C9_empty_terraform [OF h] by (simp add: list_all_iff)
qed

section \<open>The layer-caching heuristic of validate_dockerfile\<close>

lemma copy_not_run: "startswith s ''COPY'' \<Longrightarrow> \<not> startswith s ''RUN''"
  by (auto simp: startswith_def prefix_def)

lemma scan_snd_set: "ri \<noteq> - 1 \<Longrightarrow> snd (scan_copy_run ls i (ci, ri)) = ri"
  by (induction ls arbitrary: i ci) auto

lemma scan_fst:
  "(fst (scan_copy_run ls i (ci, ri)) = ci \<and> (\<forall>k<length ls. \<not> startswith (py_strip (ls ! k)) ''COPY''))
   \<or> (\<exists>k<length ls. startswith (py_strip (ls ! k)) ''COPY'' \<and>
         fst (scan_copy_run ls i (ci, ri)) = int (i + k) \<and>
         (\<forall>k'. k < k' \<and> k' < length ls \<longrightarrow> \<not> startswith (py_strip (ls ! k')) ''COPY''))"
proof (induction ls arbitrary: i ci ri)
  case Nil
  then show ?case by simp
next
  case (Cons l ls)
  let ?st = "(if startswith (py_strip l) ''COPY'' then (int i, ri)
        else if startswith (py_strip l) ''RUN'' \<and> ri = - 1 then (ci, int i)
        else (ci, ri))"
  have eq: "scan_copy_run (l # ls) i (ci, ri) = scan_copy_run ls (i + 1) (fst ?st, snd ?st)"
    by simp
  from Cons.IH [of "i + 1" "fst ?st" "snd ?st"]
  consider (none) "fst (scan_copy_run ls (i + 1) (fst ?st, snd ?st)) = fst ?st"
      "\<forall>k<length ls. \<not> startswith (py_strip (ls ! k)) ''COPY''"
    | (some) k where "k < length ls" "startswith (py_strip (ls ! k)) ''COPY''"
      "fst (scan_copy_run ls (i + 1) (fst ?st, snd ?st)) = int (i + 1 + k)"
      "\<forall>k'. k < k' \<and> k' < length ls \<longrightarrow> \<not> startswith (py_strip (ls ! k')) ''COPY''"
    by blast
  then show ?case
  proof cases
    case none
    show ?thesis
    proof (cases "startswith (py_strip l) ''COPY''")
      case True
      have "0 < length (l # ls) \<and> startswith (py_strip ((l # ls) ! 0)) ''COPY'' \<and>
         fst (scan_copy_run (l # ls) i (ci, ri)) = int (i + 0) \<and>
         (\<forall>k'. 0 < k' \<and> k' < length (l # ls) \<longrightarrow> \<not> startswith (py_strip ((l # ls) ! k')) ''COPY'')"
        using none True by (auto simp: nth_Cons')
      then show ?thesis by blast
    next
      case False
      have "fst (scan_copy_run (l # ls) i (ci, ri)) = ci \<and>
         (\<forall>k<length (l # ls). \<not> startswith (py_strip ((l # ls) ! k)) ''COPY'')"
        using none False by (auto simp: nth_Cons')
      then show ?thesis by blast
    qed
  next
    case some
    have "Suc k < length (l # ls) \<and> startswith (py_strip ((l # ls) ! Suc k)) ''COPY'' \<and>
         fst (scan_copy_run (l # ls) i (ci, ri)) = int (i + Suc k) \<and>
         (\<forall>k'. Suc k < k' \<and> k' < length (l # ls) \<longrightarrow> \<not> startswith (py_strip ((l # ls) ! k')) ''COPY'')"
    proof (intro conjI allI impI)
      show "Suc k < length (l # ls)" using some by simp
      show "startswith (py_strip ((l # ls) ! Suc k)) ''COPY''" using some by simp
      show "fst (scan_copy_run (l # ls) i (ci, ri)) = int (i + Suc k)"
        using some eq by simp
    next
      fix k' assume a: "Suc k < k' \<and> k' < length (l # ls)"
      then obtain m where m: "k' = Suc m" by (cases k') auto
      with a have "k < m \<and> m < length ls" by simp
      with some have "\<not> startswith (py_strip (ls ! m)) ''COPY''" by blast
      then show "\<not> startswith (py_strip ((l # ls) ! k')) ''COPY''" using m by simp
    qed
    then show ?thesis by blast
  qed
qed

lemma scan_snd:
  "(snd (scan_copy_run ls i (ci, - 1)) = - 1 \<and> (\<forall>k<length ls. \<not> startswith (py_strip (ls ! k)) ''RUN''))
   \<or> (\<exists>k<length ls. startswith (py_strip (ls ! k)) ''RUN'' \<and>
         snd (scan_copy_run ls i (ci, - 1)) = int (i + k) \<and>
         (\<forall>k'<k. \<not> startswith (py_strip (ls ! k')) ''RUN''))"
proof (induction ls arbitrary: i ci)
  case Nil
  then show ?case by simp
next
  case (Cons l ls)
  show ?case
  proof (cases "startswith (py_strip l) ''RUN''")
    case True
    then have nc: "\<not> startswith (py_strip l) ''COPY''"
      using copy_not_run by blast
    have "snd (scan_copy_run (l # ls) i (ci, - 1)) = int i"
      using True nc by (simp add: scan_snd_set)
    then have "0 < length (l # ls) \<and> startswith (py_strip ((l # ls) ! 0)) ''RUN'' \<and>
         snd (scan_copy_run (l # ls) i (ci, - 1)) = int (i + 0) \<and>
         (\<forall>k'<0. \<not> startswith (py_strip ((l # ls) ! k')) ''RUN'')"
      using True by simp
    then show ?thesis by blast
  next
    case False
    obtain ci' where eq: "scan_copy_run (l # ls) i (ci, - 1) = scan_copy_run ls (i + 1) (ci', - 1)"
      using False by (cases "startswith (py_strip l) ''COPY''") auto
    from Cons.IH [of "i + 1" ci']
    consider (none) "snd (scan_copy_run ls (i + 1) (ci', - 1)) = - 1"
        "\<forall>k<length ls. \<not> startswith (py_strip (ls ! k)) ''RUN''"
      | (some) k where "k < length ls" "startswith (py_strip (ls ! k)) ''RUN''"
        "snd (scan_copy_run ls (i + 1) (ci', - 1)) = int (i + 1 + k)"
        "\<forall>k'<k. \<not> startswith (py_strip (ls ! k')) ''RUN''"
      by blast
    then show ?thesis
    proof cases
      case none
      have "snd (scan_copy_run (l # ls) i (ci, - 1)) = - 1 \<and>
         (\<forall>k<length (l # ls). \<not> startswith (py_strip ((l # ls) ! k)) ''RUN'')"
        using none False eq by (auto simp: nth_Cons')
      then show ?thesis by blast
    next
      case some
      have "Suc k < length (l # ls) \<and> startswith (py_strip ((l # ls) ! Suc k)) ''RUN'' \<and>
         snd (scan_copy_run (l # ls) i (ci, - 1)) = int (i + Suc k) \<and>
         (\<forall>k'<Suc k. \<not> startswith (py_strip ((l # ls) ! k')) ''RUN'')"
        using some False eq by (auto simp: nth_Cons' less_Suc_eq_0_disj)
      then show ?thesis by blast
    qed
  qed
qed

lemma docker_emits:
  "(layer_caching_suggestion \<in> set (suggestions (validate_dockerfile content))) =
     (- 1 < fst (scan_copy_run (dockerfile_lines content) 0 (- 1, - 1)) \<and>
      - 1 < snd (scan_copy_run (dockerfile_lines content) 0 (- 1, - 1)) \<and>
      snd (scan_copy_run (dockerfile_lines content) 0 (- 1, - 1))
        < fst (scan_copy_run (dockerfile_lines content) 0 (- 1, - 1)))"
  by (simp add: validate_dockerfile_def Let_def new_result_def add_error_def add_suggestion_def
      layer_caching_suggestion_def split: prod.splits)

lemma last_copy_index:
  fixes ls :: "string list"
  defines "C \<equiv> {i. i < length ls \<and> startswith (py_strip (ls ! i)) ''COPY''}"
  shows "(C = {} \<and> fst (scan_copy_run ls 0 (- 1, ri)) = - 1) \<or>
         (C \<noteq> {} \<and> fst (scan_copy_run ls 0 (- 1, ri)) = int (Max C))"
proof -
  have fin: "finite C" unfolding C_def by simp
  from scan_fst [of ls 0 "- 1" ri]
  consider (none) "fst (scan_copy_run ls 0 (- 1, ri)) = - 1"
      "\<forall>k<length ls. \<not> startswith (py_strip (ls ! k)) ''COPY''"
    | (some) k where "k < length ls" "startswith (py_strip (ls ! k)) ''COPY''"
      "fst (scan_copy_run ls 0 (- 1, ri)) = int (0 + k)"
      "\<forall>k'. k < k' \<and> k' < length ls \<longrightarrow> \<not> startswith (py_strip (ls ! k')) ''COPY''"
    by blast
  then show ?thesis
  proof cases
    case none
    then have "C = {}" unfolding C_def by blast
    with none show ?thesis by simp
  next
    case some
    have kin: "k \<in> C" using some unfolding C_def by simp
    have le: "\<And>y. y \<in> C \<Longrightarrow> y \<le> k"
    proof (rule ccontr)
      fix y assume y: "y \<in> C" and "\<not> y \<le> k"
      then have "k < y \<and> y < length ls" unfolding C_def by simp
      with some have "\<not> startswith (py_strip (ls ! y)) ''COPY''" by blast
      with y show False unfolding C_def by simp
    qed
    have "Max C = k" using fin le kin by (rule Max_eqI)
    with kin some show ?thesis by auto
  qed
qed

lemma first_run_index:
  fixes ls :: "string list"
  defines "R \<equiv> {i. i < length ls \<and> startswith (py_strip (ls ! i)) ''RUN''}"
  shows "(R = {} \<and> snd (scan_copy_run ls 0 (- 1, - 1)) = - 1) \<or>
         (R \<noteq> {} \<and> snd (scan_copy_run ls 0 (- 1, - 1)) = int (Min R))"
proof -
  have fin: "finite R" unfolding R_def by simp
  from scan_snd [of ls 0 "- 1"]
  consider (none) "snd (scan_copy_run ls 0 (- 1, - 1)) = - 1"
      "\<forall>k<length ls. \<not> startswith (py_strip (ls ! k)) ''RUN''"
    | (some) k where "k < length ls" "startswith (py_strip (ls ! k)) ''RUN''"
      "snd (scan_copy_run ls 0 (- 1, - 1)) = int (0 + k)"
      "\<forall>k'<k. \<not> startswith (py_strip (ls ! k')) ''RUN''"
    by blast
  then show ?thesis
  proof cases
    case none
    then have "R = {}" unfolding R_def by blast
    with none show ?thesis by simp
  next
    case some
    have kin: "k \<in> R" using some unfolding R_def by simp
    have le: "\<And>y. y \<in> R \<Longrightarrow> k \<le> y"
    proof (rule ccontr)
      fix y assume y: "y \<in> R" and "\<not> k \<le> y"
      then have "y < k" by simp
      with some have "\<not> startswith (py_strip (ls ! y)) ''RUN''" by blast
      with y show False unfolding R_def by simp
    qed
    have "Min R = k" using fin le kin by (rule Min_eqI)
    with kin some show ?thesis by auto
  qed
qed

lemma layer_caching_iff:
  "(layer_caching_suggestion \<in> set (suggestions (validate_dockerfile content))) =
     ({i. i < length (dockerfile_lines content) \<and>
          startswith (py_strip (dockerfile_lines content ! i)) ''COPY''} \<noteq> {} \<and>
      {j. j < length (dockerfile_lines content) \<and>
          startswith (py_strip (dockerfile_lines content ! j)) ''RUN''} \<noteq> {} \<and>
      Min {j. j < length (dockerfile_lines content) \<and>
              startswith (py_strip (dockerfile_lines content ! j)) ''RUN''}
        < Max {i. i < length (dockerfile_lines content) \<and>
                  startswith (py_strip (dockerfile_lines content ! i)) ''COPY''})"
  using last_copy_index [of "dockerfile_lines content" "- 1"]
        first_run_index [of "dockerfile_lines content"]
  unfolding docker_emits by auto

lemma lines_run_copy:
  "dockerfile_lines ''RUN make\<newline>COPY . .'' = [''RUN make'', ''COPY . .'']"
  by (simp add: dockerfile_lines_def str_split_def py_strip_def py_isspace_def)

lemma lines_from_copy_run:
  "dockerfile_lines ''FROM alpine\<newline>COPY . .\<newline>RUN make'' =
     [''FROM alpine'', ''COPY . .'', ''RUN make'']"
  by (simp add: dockerfile_lines_def str_split_def py_strip_def py_isspace_def)

lemma run_copy_emits:
  "layer_caching_suggestion \<in> set (suggestions (validate_dockerfile ''RUN make\<newline>COPY . .''))"
  unfolding docker_emits lines_run_copy
  by (simp add: startswith_def py_strip_def py_isspace_def)

lemma from_copy_run_silent:
  "layer_caching_suggestion \<notin>
     set (suggestions (validate_dockerfile ''FROM alpine\<newline>COPY . .\<newline>RUN make''))"
  unfolding docker_emits lines_from_copy_run
  by (simp add: startswith_def py_strip_def py_isspace_def)

text \<open>
  Claim C8. \<open>validate_dockerfile\<close> emits the layer-caching suggestion exactly when some
  line's stripped form starts with \<open>COPY\<close>, some line's stripped form starts with \<open>RUN\<close>,
  and the index of the last such \<open>COPY\<close> line is greater than the index of the first such
  \<open>RUN\<close> line. The lines \<open>RUN make\<close>, \<open>COPY . .\<close> produce it; the lines \<open>FROM alpine\<close>,
  \<open>COPY . .\<close>, \<open>RUN make\<close> do not.
\<close>

theorem C8_layer_caching:
  "(layer_caching_suggestion \<in> set (suggestions (validate_dockerfile content))) =
     ({i. i < length (dockerfile_lines content) \<and>
          startswith (py_strip (dockerfile_lines content ! i)) ''COPY''} \<noteq> {} \<and>
      {j. j < length (dockerfile_lines content) \<and>
          startswith (py_strip (dockerfile_lines content ! j)) ''RUN''} \<noteq> {} \<and>
      Min {j. j < length (dockerfile_lines content) \<and>
              startswith (py_strip (dockerfile_lines content ! j)) ''RUN''}
        < Max {i. i < length (dockerfile_lines content) \<and>
                  startswith (py_strip (dockerfile_lines content ! i)) ''COPY''})
   \<and> layer_caching_suggestion \<in>
         set (suggestions (validate_dockerfile ''RUN make\<newline>COPY . .''))
   \<and> layer_caching_suggestion \<notin>
         set (suggestions (validate_dockerfile ''FROM alpine\<newline>COPY . .\<newline>RUN make''))"
  using layer_caching_iff [of content] run_copy_emits from_copy_run_silent by blast

section \<open>Fence stripping is idempotent\<close>

lemma str_contains_sublist: "str_contains p s = sublist p s"
  by (induction s) (simp_all add: sublist_Cons_right)

lemma replicate_survives:
  "0 < n \<Longrightarrow> prefix (replicate k b) (str_replace (replicate n b) [] s) \<Longrightarrow> prefix (replicate k b) s"
proof (induction "replicate n b" "[] :: string" s arbitrary: k rule: str_replace.induct)
  case 1
  then show ?case by simp
next
  case (2 c cs)
  let ?old = "replicate n b"
  have ne: "?old \<noteq> []" using "2.prems"(1) by simp
  show ?case
  proof (cases "prefix ?old (c # cs)")
    case True
    then obtain r where r: "c # cs = ?old @ r" by (auto simp: prefix_def)
    then have d: "drop (length ?old) (c # cs) = r" by simp
    have eq: "str_replace ?old [] (c # cs) = str_replace ?old [] r"
      using True ne d by (simp del: replicate.simps)
    have "prefix (replicate k b) (str_replace ?old [] r)"
      using "2.prems"(2) eq by simp
    then have "prefix (replicate k b) r"
      using "2.hyps"(1) [of k] True ne d "2.prems"(1) by simp
    then obtain t where "r = replicate k b @ t" by (auto simp: prefix_def)
    then have "c # cs = replicate k b @ (?old @ t)"
      using r by (simp add: replicate_add [symmetric] add.commute del: replicate.simps)
    then show ?thesis unfolding prefix_def by blast
  next
    case False
    then have eq: "str_replace ?old [] (c # cs) = c # str_replace ?old [] cs"
      by (simp del: replicate.simps)
    show ?thesis
    proof (cases k)
      case 0
      then show ?thesis by simp
    next
      case (Suc m)
      with "2.prems"(2) eq have a: "c = b" "prefix (replicate m b) (str_replace ?old [] cs)"
        by auto
      have "prefix (replicate m b) cs"
        using "2.hyps"(2) [of m] False a(2) "2.prems"(1) by simp
      with a(1) show ?thesis using Suc by simp
    qed
  qed
qed

lemma replace_removes_all:
  "0 < n \<Longrightarrow> \<not> str_contains (replicate n b) (str_replace (replicate n b) [] s)"
proof (induction "replicate n b" "[] :: string" s rule: str_replace.induct)
  case 1
  then show ?case by simp
next
  case (2 c cs)
  let ?old = "replicate n b"
  have ne: "?old \<noteq> []" using "2.prems" by simp
  show ?case
  proof (cases "prefix ?old (c # cs)")
    case True
    then have eq: "str_replace ?old [] (c # cs) = str_replace ?old [] (drop (length ?old) (c # cs))"
      using ne by (simp del: replicate.simps)
    show ?thesis
      unfolding eq using "2.hyps"(1) True ne "2.prems" by simp
  next
    case False
    then have eq: "str_replace ?old [] (c # cs) = c # str_replace ?old [] cs"
      by (simp del: replicate.simps)
    have rest: "\<not> str_contains ?old (str_replace ?old [] cs)"
      using "2.hyps"(2) False "2.prems" by simp
    have "\<not> prefix ?old (c # str_replace ?old [] cs)"
    proof
      assume pr: "prefix ?old (c # str_replace ?old [] cs)"
      obtain m where m: "n = Suc m" using "2.prems" by (cases n) auto
      from pr m have "c = b" "prefix (replicate m b) (str_replace ?old [] cs)" by auto
      then have "prefix (replicate m b) cs"
        using replicate_survives [OF "2.prems"] by blast
      with \<open>c = b\<close> m have "prefix ?old (c # cs)" by simp
      with False show False by simp
    qed
    with rest show ?thesis unfolding eq by simp
  qed
qed

lemma replace_absent: "\<not> str_contains old s \<Longrightarrow> str_replace old new s = s"
  by (induction s) auto

lemma absent_longer: "\<not> str_contains p s \<Longrightarrow> prefix p q \<Longrightarrow> \<not> str_contains q s"
  unfolding str_contains_sublist
  by (meson prefix_imp_sublist sublist_order.order.trans)

lemma strip_sublist: "sublist (py_strip s) s"
proof -
  have "prefix (py_strip s) (dropWhile py_isspace s)"
    unfolding py_strip_def
    by (metis suffix_dropWhile suffix_to_prefix rev_rev_ident)
  moreover have "suffix (dropWhile py_isspace s) s" by (rule suffix_dropWhile)
  ultimately show ?thesis
    by (meson prefix_imp_sublist suffix_imp_sublist sublist_order.order.trans)
qed

lemma absent_strip: "\<not> str_contains p s \<Longrightarrow> \<not> str_contains p (py_strip s)"
  unfolding str_contains_sublist
  using strip_sublist by (meson sublist_order.order.trans)

lemma strip_idem: "py_strip (py_strip s) = py_strip s"
proof -
  define t where "t = dropWhile py_isspace s"
  define v where "v = dropWhile py_isspace (rev t)"
  have u: "py_strip s = rev v" by (simp add: py_strip_def t_def v_def)
  have hd_t: "t \<noteq> [] \<Longrightarrow> \<not> py_isspace (hd t)"
    unfolding t_def by (rule hd_dropWhile)
  have bk: "dropWhile py_isspace v = v"
    unfolding v_def by (rule dropWhile_idem)
  have sfx: "suffix v (rev t)"
    unfolding v_def by (rule suffix_dropWhile)
  have front: "dropWhile py_isspace (rev v) = rev v"
  proof (cases "v = []")
    case True
    then show ?thesis by simp
  next
    case False
    from sfx obtain w where w: "rev t = w @ v" by (auto simp: suffix_def)
    then have t: "t = rev v @ rev w" by (metis rev_append rev_rev_ident)
    with False have tne: "t \<noteq> []" by simp
    have "hd (rev v) = hd t" using t False by simp
    with hd_t [OF tne] have "\<not> py_isspace (hd (rev v))" by simp
    then show ?thesis by (simp add: dropWhile_eq_self_iff)
  qed
  have "py_strip (rev v) = rev (dropWhile py_isspace (rev (dropWhile py_isspace (rev v))))"
    by (simp add: py_strip_def)
  also have "\<dots> = rev (dropWhile py_isspace (rev (rev v)))" by (simp only: front)
  also have "\<dots> = rev v" using bk by simp
  finally show ?thesis using u by simp
qed

lemma fence_is_replicate: "''```'' = replicate 3 CHR 0x60"
  by (simp add: numeral_3_eq_3)

lemma no_fence_after_replace: "\<not> str_contains ''```'' (str_replace ''```'' [] s)"
  unfolding fence_is_replicate by (rule replace_removes_all) simp

lemma k8s_no_fence: "\<not> str_contains ''```'' (k8s_strip_fences s)"
  unfolding k8s_strip_fences_def by (rule absent_strip) (rule no_fence_after_replace)

lemma tf_no_fence: "\<not> str_contains ''```'' (tf_strip_fences s)"
  unfolding tf_strip_fences_def by (rule absent_strip) (rule no_fence_after_replace)

lemma k8s_fixed: "\<not> str_contains ''```'' u \<Longrightarrow> py_strip u = u \<Longrightarrow> k8s_strip_fences u = u"
proof -
  assume a: "\<not> str_contains ''```'' u" and b: "py_strip u = u"
  have "\<not> str_contains ''```yaml'' u" using a by (rule absent_longer) simp
  then have "str_replace ''```yaml'' [] u = u" by (rule replace_absent)
  moreover have "str_replace ''```'' [] u = u" using a by (rule replace_absent)
  ultimately show ?thesis using b by (simp only: k8s_strip_fences_def)
qed

lemma tf_fixed: "\<not> str_contains ''```'' u \<Longrightarrow> py_strip u = u \<Longrightarrow> tf_strip_fences u = u"
proof -
  assume a: "\<not> str_contains ''```'' u" and b: "py_strip u = u"
  have "\<not> str_contains ''```hcl'' u" using a by (rule absent_longer) simp
  then have 1: "str_replace ''```hcl'' [] u = u" by (rule replace_absent)
  have "\<not> str_contains ''```terraform'' u" using a by (rule absent_longer) simp
  then have 2: "str_replace ''```terraform'' [] u = u" by (rule replace_absent)
  have 3: "str_replace ''```'' [] u = u" using a by (rule replace_absent)
  show ?thesis using 1 2 3 b by (simp only: tf_strip_fences_def)
qed

text \<open>
  Claim C6. Stripping code fences (removing the language-tagged open fences and the bare
  fence, then trimming whitespace) is idempotent, for the Kubernetes and for the Terraform
  variant: applying it twice gives the same string as applying it once.
\<close>

theorem C6_strip_fences_idempotent:
  "k8s_strip_fences (k8s_strip_fences s) = k8s_strip_fences s \<and>
   tf_strip_fences (tf_strip_fences s) = tf_strip_fences s"
proof
  have "py_strip (k8s_strip_fences s) = k8s_strip_fences s"
    unfolding k8s_strip_fences_def by (rule strip_idem)
  with k8s_no_fence show "k8s_strip_fences (k8s_strip_fences s) = k8s_strip_fences s"
    by (rule k8s_fixed)
next
  have "py_strip (tf_strip_fences s) = tf_strip_fences s"
    unfolding tf_strip_fences_def by (rule strip_idem)
  with tf_no_fence show "tf_strip_fences (tf_strip_fences s) = tf_strip_fences s"
    by (rule tf_fixed)
qed

section \<open>The dispatcher, and the Kubernetes validator\<close>

lemma yaml_syntax_cases:
  "validate_yaml_syntax safe_load content =
     (case safe_load content of
        Loaded v \<Rightarrow> Inr \<lparr>valid = True, errors = [], warnings = [], suggestions = []\<rparr>
      | YAMLError e \<Rightarrow>
          Inr \<lparr>valid = False, errors = [''YAML syntax error: '' @ e], warnings = [],
               suggestions = []\<rparr>
      | Raised x \<Rightarrow> Inl x)"
  by (simp add: validate_yaml_syntax_def new_result_def add_error_def split: load_outcome.splits)

text \<open>
  For a \<open>code_type\<close> other than \<open>kubernetes\<close>, \<open>terraform\<close> and \<open>docker\<close>,
  \<open>validate_generated_code\<close> is \<open>validate_yaml_syntax\<close> on the content. When that
  returns, the result has at most one error, which is there exactly when the parser
  raised \<open>YAMLError\<close>, and no warning and no suggestion.
\<close>

lemma default_dispatch:
  assumes "code_type \<notin> {''kubernetes'', ''terraform'', ''docker''}"
  shows "validate_generated_code safe_load content code_type =
           validate_yaml_syntax safe_load content
       \<and> (case validate_yaml_syntax safe_load content of
            Inr r \<Rightarrow> length (errors r) \<le> 1 \<and> warnings r = [] \<and> suggestions r = []
                     \<and> ((errors r \<noteq> []) = (\<exists>e. safe_load content = YAMLError e))
          | Inl x \<Rightarrow> safe_load content = Raised x)"
proof
  show "validate_generated_code safe_load content code_type =
           validate_yaml_syntax safe_load content"
    using assms by (simp add: validate_generated_code_def)
  show "case validate_yaml_syntax safe_load content of
            Inr r \<Rightarrow> length (errors r) \<le> 1 \<and> warnings r = [] \<and> suggestions r = []
                     \<and> ((errors r \<noteq> []) = (\<exists>e. safe_load content = YAMLError e))
          | Inl x \<Rightarrow> safe_load content = Raised x"
    unfolding yaml_syntax_cases by (cases "safe_load content") simp_all
qed

text \<open>
  Claim C10. The dispatcher does not return a result for every content and every
  \<open>code_type\<close> outside \<open>kubernetes\<close>, \<open>terraform\<close>, \<open>docker\<close>: \<open>validate_yaml_syntax\<close>
  catches \<open>yaml.YAMLError\<close> only, so an exception of another class raised by the parser,
  as PyYAML raises \<open>ValueError\<close> on the scalar \<open>2001-13-01\<close>, leaves
  \<open>validate_generated_code\<close> and no result with at most one error is returned.
\<close>

theorem C10_parser_fault_propagates:
  "validate_generated_code
     (\<lambda>s. if s = ''2001-13-01''
          then Raised (PyException ''ValueError'' ''month must be in 1..12'')
          else Loaded YNone)
     ''2001-13-01'' ''helm'' =
   Inl (PyException ''ValueError'' ''month must be in 1..12'')"
  by (simp add: validate_generated_code_def validate_yaml_syntax_def)

text \<open>
  Every statement of the \<open>try\<close> body but the security-context one leaves the suggestions
  as they are, whether it raises or not.
\<close>

lemma keeps_and_then:
  assumes "keeps_suggestions f" and "keeps_suggestions g"
  shows "keeps_suggestions (\<lambda>r. and_then (f r) g)"
  unfolding keeps_suggestions_def
proof
  fix r
  show "suggestions (outcome_result (and_then (f r) g)) = suggestions r"
  proof (cases "f r")
    case (Inl a)
    with assms(1) show ?thesis
      by (auto simp: keeps_suggestions_def and_then_def outcome_result_def split: prod.splits
          dest: spec [of _ r])
  next
    case (Inr r')
    with assms(1) have "suggestions r' = suggestions r"
      by (auto simp: keeps_suggestions_def outcome_result_def dest: spec [of _ r])
    moreover have "suggestions (outcome_result (g r')) = suggestions r'"
      using assms(2) by (simp add: keeps_suggestions_def)
    ultimately show ?thesis using Inr by (simp add: and_then_def)
  qed
qed






lemma map_of_None_iff: "(YStr k \<notin> fst ` set kvs) = (map_of kvs (YStr k) = None)"
  by (simp add: map_of_eq_None_iff)












text \<open>
  When \<open>spec.template\<close> is \<open>None\<close>, \<open>.get\<close> raises \<open>AttributeError\<close>: the handler adds
  the error with the text of the exception, and nothing is suggested.
\<close>

lemma template_none_example:
  "validate_kubernetes_manifest
     (\<lambda>s. Loaded (YDict
        [(YStr ''apiVersion'', YStr ''apps/v1''),
         (YStr ''kind'', YStr ''Deployment''),
         (YStr ''metadata'', YDict [(YStr ''name'', YStr ''web'')]),
         (YStr ''spec'', YDict [(YStr ''replicas'', YInt 1), (YStr ''template'', YNone)])]))
     ''apiVersion: apps/v1\<newline>kind: Deployment\<newline>metadata: {name: web}\<newline>spec: {replicas: 1, template: null}'' =
   Inr \<lparr>valid = False,
        errors = [''Validation error: '' @ [CHR 0x27] @ ''NoneType'' @ [CHR 0x27] @
                  '' object has no attribute '' @ [CHR 0x27] @ ''get'' @ [CHR 0x27]],
        warnings = [], suggestions = []\<rparr>"
  by (simp add: validate_kubernetes_manifest_def validate_yaml_syntax_def try_body_def
      inspect_manifest_def require_field_def check_metadata_def check_kind_def
      check_deployment_spec_def check_security_context_def security_context_suggestion_def
      and_then_def raising_def new_result_def add_error_def str_exception_def quoted_def)

text \<open>
  Claim C4. \<open>validate_kubernetes_manifest\<close> calls \<open>validate_yaml_syntax\<close> before its
  \<open>try\<close>, and that function catches \<open>yaml.YAMLError\<close> only. An exception of another
  class raised by the parser, as PyYAML raises \<open>ValueError\<close> on the scalar \<open>2001-13-01\<close>,
  leaves the validator.
\<close>

theorem C4_parser_fault_propagates:
  "validate_kubernetes_manifest
     (\<lambda>s. if s = ''2001-13-01''
          then Raised (PyException ''ValueError'' ''month must be in 1..12'')
          else Loaded YNone)
     ''2001-13-01'' =
   Inl (PyException ''ValueError'' ''month must be in 1..12'')"
  by (simp add: validate_kubernetes_manifest_def validate_yaml_syntax_def and_then_def)

text \<open>
  Apart from that, the validator returns a result: what the statements of the \<open>try\<close>
  body raise becomes one more error.
\<close>

lemma kubernetes_returns:
  assumes "\<And>x. safe_load content \<noteq> Raised x"
  shows "\<exists>r. validate_kubernetes_manifest safe_load content = Inr r"
proof (cases "safe_load content")
  case (Loaded v)
  then show ?thesis
    by (auto simp: validate_kubernetes_manifest_def validate_yaml_syntax_def and_then_def
        new_result_def split: sum.splits prod.splits)
next
  case (YAMLError e)
  then show ?thesis
    by (simp add: validate_kubernetes_manifest_def validate_yaml_syntax_def and_then_def
        new_result_def add_error_def)
next
  case (Raised x)
  with assms [of x] show ?thesis by blast
qed

text \<open>A document that is a scalar: the first membership test raises \<open>TypeError\<close>.\<close>

lemma scalar_manifest_example:
  "validate_kubernetes_manifest (\<lambda>s. Loaded (YInt 42)) ''42'' =
   Inr \<lparr>valid = False,
        errors = [''Validation error: argument of type '' @ [CHR 0x27] @ ''int'' @ [CHR 0x27] @
                  '' is not iterable''],
        warnings = [], suggestions = []\<rparr>"
  by (simp add: validate_kubernetes_manifest_def validate_yaml_syntax_def try_body_def
      inspect_manifest_def require_field_def and_then_def raising_def new_result_def
      add_error_def str_exception_def quoted_def)

section \<open>The split on file markers\<close>

lemma re_match_length: "re_match items s g acc = Some (grp, rest) \<Longrightarrow> length rest \<le> length s"
proof (induction items s g acc arbitrary: grp rest rule: re_match.induct)
  case (5 p items x xs g acc)
  then show ?case by (fastforce split: if_splits option.splits)
qed (fastforce split: if_splits)+

lemma re_match_chr_shorter:
  assumes "re_match (Chr c # items) s g acc = Some (grp, rest)"
  shows "length rest < length s"
proof (cases s)
  case Nil
  with assms show ?thesis by simp
next
  case (Cons x xs)
  with assms have "re_match items xs g (if g then acc @ [x] else acc) = Some (grp, rest)"
    by (simp split: if_splits)
  then have "length rest \<le> length xs" by (rule re_match_length)
  with Cons show ?thesis by simp
qed

lemma file_pattern_starts: "\<exists>items. file_pattern = Chr CHR ''-'' # items"
  by (simp add: file_pattern_def literal_def)

lemma re_search_shorter:
  assumes "re_search (Chr c # items) s = Some (before, grp, rest)"
  shows "length rest < length s"
  using assms
proof (induction s arbitrary: before)
  case Nil
  then show ?case by (simp split: option.splits)
next
  case (Cons x xs)
  show ?case
  proof (cases "re_match (Chr c # items) (x # xs) False []")
    case None
    with Cons.prems obtain b where "re_search (Chr c # items) xs = Some (b, grp, rest)"
      by (auto split: option.splits)
    then have "length rest < length xs" by (rule Cons.IH)
    then show ?thesis by simp
  next
    case (Some m)
    with Cons.prems have "re_match (Chr c # items) (x # xs) False [] = Some (grp, rest)"
      by (auto split: prod.splits)
    then show ?thesis by (rule re_match_chr_shorter)
  qed
qed

lemma split_file_pattern_unfold:
  "split_file_pattern s =
     (case re_search file_pattern s of
        None \<Rightarrow> [s]
      | Some (before, grp, rest) \<Rightarrow> before # grp # split_file_pattern rest)"
proof (cases "re_search file_pattern s")
  case None
  then show ?thesis by (subst split_file_pattern.simps) simp
next
  case (Some m)
  obtain before grp rest where m: "m = (before, grp, rest)" by (cases m) auto
  obtain items where "file_pattern = Chr CHR ''-'' # items"
    using file_pattern_starts by blast
  with Some m have "re_search (Chr CHR ''-'' # items) s = Some (before, grp, rest)" by simp
  then have "length rest < length s" by (rule re_search_shorter)
  with Some m show ?thesis by (subst split_file_pattern.simps) simp
qed

section \<open>The dict built by \<open>_parse_output\<close>\<close>

lemma map_of_dict_set: "map_of (dict_set m k v) = (map_of m)(k \<mapsto> v)"
  by (induction m) (auto simp: fun_eq_iff)

lemma keys_dict_set:
  "map fst (dict_set m k v) = (if k \<in> set (map fst m) then map fst m else map fst m @ [k])"
  by (induction m) force+

lemma dict_set_not_empty: "dict_set m k v \<noteq> []"
  by (cases m) (auto split: if_splits)

lemma dict_set_all_Cons: "dict_set_all m ((k, v) # kvs) = dict_set_all (dict_set m k v) kvs"
  by (simp add: dict_set_all_def)

lemma dict_set_all_Nil: "dict_set_all m [] = m"
  by (simp add: dict_set_all_def)

lemma dict_set_all_not_empty: "m \<noteq> [] \<Longrightarrow> dict_set_all m kvs \<noteq> []"
proof (induction kvs arbitrary: m)
  case Nil
  then show ?case by (simp add: dict_set_all_Nil)
next
  case (Cons kv kvs)
  obtain k v where kv: "kv = (k, v)" by (cases kv)
  show ?case unfolding kv dict_set_all_Cons
    by (rule Cons.IH) (rule dict_set_not_empty)
qed

lemma dict_set_all_empty_iff: "dict_set_all [] kvs = [] \<longleftrightarrow> kvs = []"
proof (cases kvs)
  case Nil
  then show ?thesis by (simp add: dict_set_all_Nil)
next
  case (Cons kv rest)
  obtain k v where kv: "kv = (k, v)" by (cases kv)
  have "dict_set_all (dict_set [] k v) rest \<noteq> []"
    by (rule dict_set_all_not_empty) (rule dict_set_not_empty)
  then show ?thesis using Cons kv by (simp add: dict_set_all_Cons)
qed

lemma map_of_dict_set_all: "map_of (dict_set_all m kvs) = map_of (rev kvs @ m)"
proof (induction kvs arbitrary: m)
  case Nil
  then show ?case by (simp add: dict_set_all_Nil)
next
  case (Cons kv kvs)
  obtain k v where kv: "kv = (k, v)" by (cases kv)
  have "map_of (dict_set_all m (kv # kvs)) = map_of (rev kvs @ dict_set m k v)"
    unfolding kv dict_set_all_Cons by (rule Cons.IH)
  also have "\<dots> = map_of (rev kvs @ (k, v) # m)"
    by (simp add: map_of_append map_of_dict_set fun_eq_iff map_add_def)
  finally show ?case using kv by simp
qed

lemma markers_loop_writes:
  "markers_loop splits i m =
     dict_set_all m
       (map (\<lambda>(name, content). (py_strip name, k8s_strip_fences (py_strip content)))
          (pieces_pairs (drop i splits)))"
proof (induction splits i m rule: markers_loop.induct)
  case (1 splits i m)
  show ?case
  proof (cases "i < length splits")
    case False
    then show ?thesis
      by (subst markers_loop.simps) (simp add: dict_set_all_Nil)
  next
    case True
    show ?thesis
    proof (cases "i + 1 < length splits")
      case True
      then have d: "drop i splits = splits ! i # splits ! (i + 1) # drop (i + 2) splits"
        by (metis Cons_nth_drop_Suc Suc_eq_plus1 add_2_eq_Suc' add_lessD1)
      have "markers_loop splits i m =
              markers_loop splits (i + 2)
                (dict_set m (py_strip (splits ! i))
                   (k8s_strip_fences (py_strip (splits ! (i + 1)))))"
        using True by (subst markers_loop.simps) (simp add: Let_def)
      also have "\<dots> = dict_set_all
               (dict_set m (py_strip (splits ! i))
                  (k8s_strip_fences (py_strip (splits ! (i + 1)))))
               (map (\<lambda>(name, content). (py_strip name, k8s_strip_fences (py_strip content)))
                  (pieces_pairs (drop (i + 2) splits)))"
        using "1.IH" \<open>i < length splits\<close> True by (simp add: Let_def)
      finally show ?thesis
        unfolding d by (simp add: dict_set_all_Cons)
    next
      case False
      with True have d: "drop i splits = [splits ! i]"
        by (metis Cons_nth_drop_Suc Suc_eq_plus1 drop_all not_less)
      have "markers_loop splits i m = markers_loop splits (i + 2) m"
        using True False by (subst markers_loop.simps) simp
      also have "\<dots> = m"
        using False by (subst markers_loop.simps) simp
      finally show ?thesis
        unfolding d by (simp add: dict_set_all_Nil)
    qed
  qed
qed

lemma fallback_loop_writes:
  "fallback_loop docs i m =
     dict_set_all m
       (map (\<lambda>(i, doc). (derive_filename i (k8s_strip_fences doc), k8s_strip_fences doc))
          (enumerate i docs))"
  by (induction docs arbitrary: i m) (simp_all add: dict_set_all_Nil dict_set_all_Cons Let_def)

lemma markers_result:
  "markers_loop (split_file_pattern output) 1 [] = dict_set_all [] (marker_writes output)"
  by (simp add: markers_loop_writes marker_writes_def marker_entries_def drop_Suc)

lemma parse_output_writes: "parse_output output = dict_set_all [] (parse_writes output)"
proof (cases "marker_writes output = []")
  case True
  show ?thesis
    unfolding parse_output_def Let_def markers_result parse_writes_def fallback_loop_writes
      fallback_writes_def
    using True by (simp add: dict_set_all_Nil)
next
  case False
  show ?thesis
    unfolding parse_output_def Let_def markers_result parse_writes_def
    using False by (simp add: dict_set_all_empty_iff)
qed

lemma map_of_last_write:
  assumes "j < length ws"
    and "\<forall>k. j < k \<and> k < length ws \<longrightarrow> fst (ws ! k) \<noteq> fst (ws ! j)"
  shows "map_of (rev ws) (fst (ws ! j)) = Some (snd (ws ! j))"
proof -
  have ws: "ws = take j ws @ ws ! j # drop (Suc j) ws"
    using assms(1) by (simp add: id_take_nth_drop)
  have "fst (ws ! j) \<notin> fst ` set (drop (Suc j) ws)"
  proof
    assume "fst (ws ! j) \<in> fst ` set (drop (Suc j) ws)"
    then obtain x where x: "x \<in> set (drop (Suc j) ws)" "fst x = fst (ws ! j)" by auto
    then obtain n where n: "n < length (drop (Suc j) ws)" "drop (Suc j) ws ! n = x"
      by (auto simp: in_set_conv_nth)
    then have "j < Suc j + n \<and> Suc j + n < length ws" "ws ! (Suc j + n) = x" by auto
    with assms(2) x(2) show False by metis
  qed
  then have none: "map_of (rev (drop (Suc j) ws)) (fst (ws ! j)) = None"
    by (simp add: map_of_eq_None_iff)
  have "rev ws = rev (drop (Suc j) ws) @ ws ! j # rev (take j ws)"
    by (subst ws) simp
  then have "map_of (rev ws) (fst (ws ! j)) =
      map_of (rev (drop (Suc j) ws) @ ws ! j # rev (take j ws)) (fst (ws ! j))"
    by simp
  also have "\<dots> = Some (snd (ws ! j))"
    using none by (cases "ws ! j") (simp add: map_of_append map_add_def)
  finally show ?thesis .
qed

text \<open>
  Claim C3. When two assignments of \<open>_parse_output\<close> (two file markers, or two fragments
  of the fallback) have the same filename, the returned dict maps that filename to the
  content of the later one, the last with that name: last write wins. The dict is the
  result of the assignments in order, and the function has no failing case.
\<close>

theorem C3_last_write_wins:
  assumes "ws = parse_writes output"
    and "i < j" and "j < length ws"
    and "fst (ws ! i) = fst (ws ! j)"
    and "\<forall>k. j < k \<and> k < length ws \<longrightarrow> fst (ws ! k) \<noteq> fst (ws ! j)"
  shows "parse_output output = dict_set_all [] ws \<and>
         map_of (parse_output output) (fst (ws ! j)) = Some (snd (ws ! j))"
proof
  show eq: "parse_output output = dict_set_all [] ws"
    using assms(1) by (simp add: parse_output_writes)
  have "map_of (parse_output output) = map_of (rev ws)"
    unfolding eq by (simp add: map_of_dict_set_all)
  then show "map_of (parse_output output) (fst (ws ! j)) = Some (snd (ws ! j))"
    using map_of_last_write [OF assms(3) assms(5)] by simp
qed

theorem C3_last_write_wins_witness:
  "parse_writes ''---\<newline># FILE: a.yaml\<newline>x: 1\<newline>---\<newline># FILE: a.yaml\<newline>y: 2'' =
     [(''a.yaml'', ''x: 1''), (''a.yaml'', ''y: 2'')] \<and>
   map_of (parse_output ''---\<newline># FILE: a.yaml\<newline>x: 1\<newline>---\<newline># FILE: a.yaml\<newline>y: 2'')
     ''a.yaml'' = Some ''y: 2''"
proof -
  let ?raw = "''---\<newline># FILE: a.yaml\<newline>x: 1\<newline>---\<newline># FILE: a.yaml\<newline>y: 2''"
  let ?ws = "[(''a.yaml'', ''x: 1''), (''a.yaml'', ''y: 2'')]"
  have w: "?ws = parse_writes ?raw" by code_simp
  have "parse_output ?raw = dict_set_all [] ?ws \<and>
        map_of (parse_output ?raw) (fst (?ws ! 1)) = Some (snd (?ws ! 1))"
    by (rule C3_last_write_wins [OF w, of 0 1]) simp_all
  then have "map_of (parse_output ?raw) (fst (?ws ! 1)) = Some (snd (?ws ! 1))"
    by (rule conjunct2)
  then have "map_of (parse_output ?raw) ''a.yaml'' = Some ''y: 2''" by simp
  with w [symmetric] show ?thesis by (rule conjI)
qed

section \<open>What a match of the patterns consists of\<close>

lemma re_match_chr:
  assumes "re_match (Chr c # items) s g acc = Some r"
  shows "\<exists>xs. s = c # xs \<and> re_match items xs g (if g then acc @ [c] else acc) = Some r"
  using assms by (cases s) (auto split: if_splits)

lemma re_match_star:
  "re_match (Star p # items) s g acc = Some r \<Longrightarrow>
     \<exists>ws xs. s = ws @ xs \<and> list_all p ws \<and>
       re_match items xs g (if g then acc @ ws else acc) = Some r"
proof (induction s arbitrary: acc)
  case Nil
  then show ?case by auto
next
  case (Cons x xs)
  show ?case
  proof (cases "p x \<and> re_match (Star p # items) xs g (if g then acc @ [x] else acc) \<noteq> None")
    case True
    then have "re_match (Star p # items) xs g (if g then acc @ [x] else acc) = Some r"
      using Cons.prems by auto
    from Cons.IH [OF this] obtain ws ys where
      w: "xs = ws @ ys" "list_all p ws"
         "re_match items ys g (if g then (if g then acc @ [x] else acc) @ ws else (if g then acc @ [x] else acc)) = Some r"
      by blast
    have "x # xs = (x # ws) @ ys \<and> list_all p (x # ws) \<and>
          re_match items ys g (if g then acc @ (x # ws) else acc) = Some r"
      using w True by (cases g) auto
    then show ?thesis by blast
  next
    case False
    then have "re_match items (x # xs) g acc = Some r"
      using Cons.prems by (auto split: if_splits option.splits)
    then have "x # xs = [] @ (x # xs) \<and> list_all p [] \<and>
          re_match items (x # xs) g (if g then acc @ [] else acc) = Some r"
      by (cases g) simp_all
    then show ?thesis by blast
  qed
qed

lemma re_match_plus:
  assumes "re_match (Plus p # items) s g acc = Some r"
  shows "\<exists>ws xs. s = ws @ xs \<and> ws \<noteq> [] \<and> list_all p ws \<and>
       re_match items xs g (if g then acc @ ws else acc) = Some r"
proof (cases s)
  case Nil
  with assms show ?thesis by simp
next
  case (Cons x xs)
  with assms have px: "p x" and
    m: "re_match (Star p # items) xs g (if g then acc @ [x] else acc) = Some r"
    by (auto split: if_splits)
  from re_match_star [OF m] obtain ws ys where
    w: "xs = ws @ ys" "list_all p ws"
       "re_match items ys g (if g then (if g then acc @ [x] else acc) @ ws else (if g then acc @ [x] else acc)) = Some r"
    by blast
  have "s = (x # ws) @ ys \<and> x # ws \<noteq> [] \<and> list_all p (x # ws) \<and>
        re_match items ys g (if g then acc @ (x # ws) else acc) = Some r"
    using w px Cons by (cases g) auto
  then show ?thesis by blast
qed

lemma re_match_closed_group:
  "re_match items s False acc = Some (grp, rest) \<Longrightarrow> GroupOpen \<notin> set items \<Longrightarrow> grp = acc"
proof (induction items s "False" acc arbitrary: grp rest rule: re_match.induct)
  case (5 p items x xs acc)
  then show ?case by (auto split: if_splits option.splits)
qed (auto split: if_splits)

lemma re_match_before_group:
  assumes "re_match (pre @ GroupOpen # items) s g acc = Some r"
    and "\<forall>it \<in> set pre. (\<exists>c. it = Chr c) \<or> (\<exists>p. it = Star p)"
  shows "\<exists>s'. re_match items s' True [] = Some r"
  using assms
proof (induction pre arbitrary: s g acc)
  case Nil
  then show ?case by auto
next
  case (Cons it pre)
  from Cons.prems(2) consider (chr) c where "it = Chr c" | (star) p where "it = Star p"
    by auto
  then show ?case
  proof cases
    case chr
    with Cons.prems(1) obtain xs acc' where
      "re_match (pre @ GroupOpen # items) xs g acc' = Some r"
      using re_match_chr [of c "pre @ GroupOpen # items" s g acc r] by auto
    then show ?thesis using Cons.IH Cons.prems(2) by auto
  next
    case star
    with Cons.prems(1) obtain xs acc' where
      "re_match (pre @ GroupOpen # items) xs g acc' = Some r"
      using re_match_star [of p "pre @ GroupOpen # items" s g acc r] by auto
    then show ?thesis using Cons.IH Cons.prems(2) by auto
  qed
qed

lemma file_pattern_group:
  assumes "re_match file_pattern s False [] = Some (grp, rest)"
  shows "grp \<noteq> [] \<and> list_all (\<lambda>c. \<not> py_isspace c) grp"
proof -
  let ?pre = "literal ''---'' @ [Star py_isspace, Chr CHR ''\<newline>'', Chr CHR ''#'', Star py_isspace] @
     literal ''FILE:'' @ [Star py_isspace]"
  let ?items = "[Plus (\<lambda>c. \<not> py_isspace c), GroupClose, Star py_isspace, Chr CHR ''\<newline>'']"
  have fp: "file_pattern = ?pre @ GroupOpen # ?items"
    by (simp add: file_pattern_def)
  have "\<forall>it \<in> set ?pre. (\<exists>c. it = Chr c) \<or> (\<exists>p. it = Star p)"
    by (simp add: literal_def)
  with assms obtain s' where "re_match ?items s' True [] = Some (grp, rest)"
    unfolding fp using re_match_before_group by blast
  from re_match_plus [OF this] obtain ws xs where
    w: "ws \<noteq> []" "list_all (\<lambda>c. \<not> py_isspace c) ws"
       "re_match [GroupClose, Star py_isspace, Chr CHR ''\<newline>''] xs True ([] @ ws) = Some (grp, rest)"
    by auto
  then have "re_match [Star py_isspace, Chr CHR ''\<newline>''] xs False ws = Some (grp, rest)"
    by simp
  then have "grp = ws" by (rule re_match_closed_group) simp
  with w show ?thesis by simp
qed

lemma re_search_match:
  "re_search pat s = Some (before, grp, rest) \<Longrightarrow>
     \<exists>s'. re_match pat s' False [] = Some (grp, rest)"
proof (induction s arbitrary: before)
  case Nil
  then show ?case by (auto split: option.splits)
next
  case (Cons c cs)
  then show ?case by (auto split: option.splits)
qed

section \<open>The entries of the file markers\<close>

lemma py_strip_no_space:
  assumes "list_all (\<lambda>c. \<not> py_isspace c) s"
  shows "py_strip s = s"
proof -
  have a: "dropWhile py_isspace s = s"
    using assms by (cases s) simp_all
  have "list_all (\<lambda>c. \<not> py_isspace c) (rev s)"
    using assms by (simp add: list_all_iff)
  then have "dropWhile py_isspace (rev s) = rev s"
    by (cases "rev s") simp_all
  with a show ?thesis by (simp add: py_strip_def)
qed

lemma search_file_pattern:
  assumes "re_search file_pattern s = Some (before, grp, rest)"
  shows "length rest < length s" and "grp \<noteq> []" and "list_all (\<lambda>c. \<not> py_isspace c) grp"
proof -
  obtain items where "file_pattern = Chr CHR ''-'' # items"
    using file_pattern_starts by blast
  with assms have "re_search (Chr CHR ''-'' # items) s = Some (before, grp, rest)" by simp
  then show "length rest < length s" by (rule re_search_shorter)
  from re_search_match [OF assms] obtain s' where
    "re_match file_pattern s' False [] = Some (grp, rest)" by blast
  then have "grp \<noteq> [] \<and> list_all (\<lambda>c. \<not> py_isspace c) grp" by (rule file_pattern_group)
  then show "grp \<noteq> []" and "list_all (\<lambda>c. \<not> py_isspace c) grp" by simp_all
qed

lemma split_pieces:
  "length (split_file_pattern s) = 2 * length (pieces_pairs (tl (split_file_pattern s))) + 1 \<and>
   (\<forall>e \<in> set (pieces_pairs (tl (split_file_pattern s))).
       fst e \<noteq> [] \<and> list_all (\<lambda>c. \<not> py_isspace c) (fst e))"
proof (induction s rule: split_file_pattern.induct)
  case (1 s)
  show ?case
  proof (cases "re_search file_pattern s")
    case None
    then have "split_file_pattern s = [s]"
      by (subst split_file_pattern_unfold) simp
    then show ?thesis by simp
  next
    case (Some m)
    obtain before grp rest where m: "m = (before, grp, rest)" by (cases m) auto
    have sr: "re_search file_pattern s = Some (before, grp, rest)" using Some m by simp
    note facts = search_file_pattern [OF sr]
    have IH: "length (split_file_pattern rest) =
                2 * length (pieces_pairs (tl (split_file_pattern rest))) + 1 \<and>
              (\<forall>e \<in> set (pieces_pairs (tl (split_file_pattern rest))).
                 fst e \<noteq> [] \<and> list_all (\<lambda>c. \<not> py_isspace c) (fst e))"
      using "1.IH" [OF sr refl refl facts(1)] .
    then obtain x xs where x: "split_file_pattern rest = x # xs"
      by (cases "split_file_pattern rest") auto
    have eq: "split_file_pattern s = before # grp # x # xs"
      using sr x by (subst split_file_pattern_unfold) simp
    show ?thesis
      unfolding eq using IH x facts(2,3) by simp
  qed
qed

lemma marker_count:
  "length (split_file_pattern output) = 2 * length (marker_entries output) + 1"
  using split_pieces [of "output"] by (simp add: marker_entries_def)

lemma marker_writes_names:
  "marker_writes output =
     map (\<lambda>(name, content). (name, k8s_strip_fences (py_strip content))) (marker_entries output)"
proof -
  have "\<forall>e \<in> set (marker_entries output). py_strip (fst e) = fst e"
    using split_pieces [of "output"] by (auto simp: marker_entries_def intro: py_strip_no_space)
  then show ?thesis
    by (auto simp: marker_writes_def split: prod.splits)
qed

lemma dict_set_new: "k \<notin> set (map fst m) \<Longrightarrow> dict_set m k v = m @ [(k, v)]"
  by (induction m) auto

lemma dict_set_all_distinct:
  "distinct (map fst kvs) \<Longrightarrow> set (map fst kvs) \<inter> set (map fst m) = {} \<Longrightarrow>
     dict_set_all m kvs = m @ kvs"
proof (induction kvs arbitrary: m)
  case Nil
  then show ?case by (simp add: dict_set_all_Nil)
next
  case (Cons kv kvs)
  obtain k v where kv: "kv = (k, v)" by (cases kv)
  have k: "k \<notin> set (map fst m)" using Cons.prems(2) kv by auto
  then have step: "dict_set m k v = m @ [(k, v)]" by (rule dict_set_new)
  have "dict_set_all (m @ [(k, v)]) kvs = (m @ [(k, v)]) @ kvs"
  proof (rule Cons.IH)
    show "distinct (map fst kvs)" using Cons.prems(1) by simp
    show "set (map fst kvs) \<inter> set (map fst (m @ [(k, v)])) = {}"
      using Cons.prems kv by auto
  qed
  then show ?case unfolding kv dict_set_all_Cons step by simp
qed

lemma pieces_pairs_concat:
  "even (length ys) \<Longrightarrow> concat (map (\<lambda>(name, content). [name, content]) (pieces_pairs ys)) = ys"
  by (induction ys rule: pieces_pairs.induct) simp_all

lemma split_shape:
  "split_file_pattern output =
     hd (split_file_pattern output) #
     concat (map (\<lambda>(name, content). [name, content]) (marker_entries output))"
proof -
  have len: "length (split_file_pattern output) = 2 * length (marker_entries output) + 1"
    by (rule marker_count)
  then obtain x xs where x: "split_file_pattern output = x # xs"
    by (cases "split_file_pattern output") auto
  have "length xs = 2 * length (pieces_pairs xs)"
    using len x by (simp add: marker_entries_def)
  then have "even (length xs)" by simp
  then have "concat (map (\<lambda>(name, content). [name, content]) (pieces_pairs xs)) = xs"
    by (rule pieces_pairs_concat)
  then show ?thesis using x by (simp add: marker_entries_def)
qed

text \<open>
  Claim C1, as the code has it. The pieces of \<open>re.split\<close> are the text before the first
  marker and then, for each of the \<open>N\<close> markers in order, the captured filename and the
  text up to the next marker or to the end of the string: \<open>2 * N + 1\<close> pieces, so every
  filename has a content piece, which is empty when nothing follows the last marker, and
  the test \<open>i + 1 < len(splits)\<close> never fails. When there is a marker and the filenames
  of the markers are pairwise distinct, \<open>_parse_output\<close> returns exactly \<open>N\<close> entries, in
  the order of the markers, each keyed by the filename of its marker and holding the
  text that follows it, stripped and without fences. (Markers that repeat a filename
  share one entry.)
\<close>

theorem C1_marker_entries:
  assumes "marker_entries output \<noteq> []"
    and "distinct (map fst (marker_entries output))"
  shows "split_file_pattern output =
           hd (split_file_pattern output) #
           concat (map (\<lambda>(name, content). [name, content]) (marker_entries output))
       \<and> length (split_file_pattern output) = 2 * length (marker_entries output) + 1
       \<and> parse_output output =
           map (\<lambda>(name, content). (name, k8s_strip_fences (py_strip content)))
             (marker_entries output)
       \<and> length (parse_output output) = length (marker_entries output)"
proof -
  have names: "map fst (marker_writes output) = map fst (marker_entries output)"
    unfolding marker_writes_names by (simp add: case_prod_unfold comp_def)
  have ne: "marker_writes output \<noteq> []"
    using assms(1) by (simp add: marker_writes_def)
  have "parse_output output = dict_set_all [] (marker_writes output)"
    unfolding parse_output_writes parse_writes_def using ne by simp
  also have "\<dots> = [] @ marker_writes output"
    by (rule dict_set_all_distinct) (simp_all add: names assms(2))
  finally have eq: "parse_output output =
           map (\<lambda>(name, content). (name, k8s_strip_fences (py_strip content)))
             (marker_entries output)"
    by (simp add: marker_writes_names)
  then have "length (parse_output output) = length (marker_entries output)"
    by simp
  with eq split_shape [of "output"] marker_count [of "output"] show ?thesis by blast
qed

text \<open>Two markers, the second with a fenced manifest.\<close>

theorem C1_marker_entries_witness:
  "marker_entries
     ''---\<newline># FILE: deployment.yaml\<newline>kind: Deployment\<newline>---\<newline># FILE: service.yaml\<newline>```yaml\<newline>kind: Service\<newline>```'' \<noteq> [] \<and>
   distinct (map fst (marker_entries
     ''---\<newline># FILE: deployment.yaml\<newline>kind: Deployment\<newline>---\<newline># FILE: service.yaml\<newline>```yaml\<newline>kind: Service\<newline>```'')) \<and>
   length (split_file_pattern
     ''---\<newline># FILE: deployment.yaml\<newline>kind: Deployment\<newline>---\<newline># FILE: service.yaml\<newline>```yaml\<newline>kind: Service\<newline>```'') = 5 \<and>
   parse_output
     ''---\<newline># FILE: deployment.yaml\<newline>kind: Deployment\<newline>---\<newline># FILE: service.yaml\<newline>```yaml\<newline>kind: Service\<newline>```'' =
     [(''deployment.yaml'', ''kind: Deployment''), (''service.yaml'', ''kind: Service'')]"
proof -
  let ?out = "''---\<newline># FILE: deployment.yaml\<newline>kind: Deployment\<newline>---\<newline># FILE: service.yaml\<newline>```yaml\<newline>kind: Service\<newline>```''"
  have e: "marker_entries ?out =
             [(''deployment.yaml'', ''kind: Deployment\<newline>''),
              (''service.yaml'', ''```yaml\<newline>kind: Service\<newline>```'')]"
    by code_simp
  have c1: "k8s_strip_fences (py_strip ''kind: Deployment\<newline>'') = ''kind: Deployment''"
    by code_simp
  have c2: "k8s_strip_fences (py_strip ''```yaml\<newline>kind: Service\<newline>```'') = ''kind: Service''"
    by code_simp
  have h1: "marker_entries ?out \<noteq> []" unfolding e by simp
  have h2: "distinct (map fst (marker_entries ?out))" unfolding e by simp
  have "length (split_file_pattern ?out) = 2 * length (marker_entries ?out) + 1
      \<and> parse_output ?out =
           map (\<lambda>(name, content). (name, k8s_strip_fences (py_strip content)))
             (marker_entries ?out)"
    using C1_marker_entries [OF h1 h2] by blast
  then have "length (split_file_pattern ?out) = 5 \<and>
             parse_output ?out =
               [(''deployment.yaml'', ''kind: Deployment''), (''service.yaml'', ''kind: Service'')]"
    unfolding e by (simp add: c1 c2)
  with h1 h2 show ?thesis by blast
qed

text \<open>
  The claim as stated says that a last marker with nothing after it is dropped, so that
  two markers give one entry. The split has five pieces, the last one empty, and the
  second marker gets an entry with empty content.
\<close>

theorem C1_trailing_marker_counterexample:
  "split_file_pattern ''---\<newline># FILE: a.yaml\<newline>x: 1\<newline>---\<newline># FILE: b.yaml\<newline>'' =
     [[], ''a.yaml'', ''x: 1\<newline>'', ''b.yaml'', []] \<and>
   parse_output ''---\<newline># FILE: a.yaml\<newline>x: 1\<newline>---\<newline># FILE: b.yaml\<newline>'' =
     [(''a.yaml'', ''x: 1''), (''b.yaml'', [])]"
  by code_simp

text \<open>Two markers with the same filename give one entry, with the later content.\<close>

lemma repeated_marker_example:
  "marker_entries ''---\<newline># FILE: a.yaml\<newline>x: 1\<newline>---\<newline># FILE: a.yaml\<newline>y: 2'' =
     [(''a.yaml'', ''x: 1\<newline>''), (''a.yaml'', ''y: 2'')] \<and>
   parse_output ''---\<newline># FILE: a.yaml\<newline>x: 1\<newline>---\<newline># FILE: a.yaml\<newline>y: 2'' =
     [(''a.yaml'', ''y: 2'')]"
  by code_simp

section \<open>The filenames of the fallback\<close>

text \<open>
  What the backtracking matcher finds for the kind pattern at the start of a string, in
  closed form: after \<open>kind:\<close> the whitespace is skipped, and the group is the run of word
  characters that follows, if there is one. (A whitespace character is no word
  character, so giving whitespace back never helps.)
\<close>

lemma space_not_word: "py_isspace c \<Longrightarrow> \<not> py_isword c"
  by (auto simp: py_isspace_def py_isword_def Let_def)

lemma star_last:
  "re_match [Star w, GroupClose] xs True acc = Some (acc @ takeWhile w xs, dropWhile w xs)"
  by (induction xs arbitrary: acc) simp_all

lemma kind_tail:
  "re_match [Star py_isspace, GroupOpen, Plus py_isword, GroupClose] t False acc =
     (let u = dropWhile py_isspace t
      in if u \<noteq> [] \<and> py_isword (hd u)
         then Some (takeWhile py_isword u, dropWhile py_isword u) else None)"
proof (induction t)
  case Nil
  then show ?case by simp
next
  case (Cons x xs)
  show ?case
  proof (cases "py_isspace x")
    case True
    then have "\<not> py_isword x" by (rule space_not_word)
    with True Cons show ?thesis by (simp add: Let_def split: option.splits)
  next
    case False
    then show ?thesis by (simp add: Let_def star_last)
  qed
qed

lemma re_match_literal:
  "re_match (literal p @ items) s False acc =
     (if prefix p s then re_match items (drop (length p) s) False acc else None)"
proof (induction p arbitrary: s)
  case Nil
  then show ?case by (simp add: literal_def)
next
  case (Cons c p)
  then show ?case by (cases s) (auto simp: literal_def)
qed

lemma kind_pattern_match:
  "re_match kind_pattern s False [] =
     (if prefix ''kind:'' s
      then (let u = dropWhile py_isspace (drop 5 s)
            in if u \<noteq> [] \<and> py_isword (hd u)
               then Some (takeWhile py_isword u, dropWhile py_isword u) else None)
      else None)"
  unfolding kind_pattern_def re_match_literal kind_tail by (simp add: eval_nat_numeral)

lemma takeWhile_all_append:
  "list_all P xs \<Longrightarrow> takeWhile P (xs @ ys) = xs @ takeWhile P ys"
  by (induction xs) simp_all

lemma dropWhile_all_append:
  "list_all P xs \<Longrightarrow> dropWhile P (xs @ ys) = dropWhile P ys"
  by (induction xs) simp_all

lemma kind_match_here:
  "(re_match kind_pattern s False [] = Some (ident, rest)) = kind_match s [] ident rest"
proof
  assume m: "re_match kind_pattern s False [] = Some (ident, rest)"
  define t where "t = drop 5 s"
  define u where "u = dropWhile py_isspace t"
  from m have p: "prefix ''kind:'' s"
    unfolding kind_pattern_match by (simp split: if_splits)
  then have s: "s = ''kind:'' @ t"
    unfolding t_def by (auto simp: prefix_def)
  from m p have u: "u \<noteq> []" "py_isword (hd u)"
    and i: "ident = takeWhile py_isword u" and r: "rest = dropWhile py_isword u"
    unfolding kind_pattern_match u_def t_def by (simp_all add: Let_def split: if_splits)
  have t: "t = takeWhile py_isspace t @ u" unfolding u_def by simp
  have "s = [] @ ''kind:'' @ takeWhile py_isspace t @ ident @ rest"
    using s t i r by simp
  moreover have "list_all py_isspace (takeWhile py_isspace t)"
    by (simp add: list_all_iff) (meson set_takeWhileD)
  moreover have "ident \<noteq> []" using u i by (cases u) auto
  moreover have "list_all py_isword ident"
    unfolding i by (simp add: list_all_iff) (meson set_takeWhileD)
  moreover have "rest = [] \<or> \<not> py_isword (hd rest)"
    unfolding r using hd_dropWhile [of py_isword u] by blast
  ultimately show "kind_match s [] ident rest"
    unfolding kind_match_def by blast
next
  assume "kind_match s [] ident rest"
  then obtain ws where s: "s = ''kind:'' @ ws @ ident @ rest" and ws: "list_all py_isspace ws"
    and ne: "ident \<noteq> []" and wd: "list_all py_isword ident"
    and r: "rest = [] \<or> \<not> py_isword (hd rest)"
    unfolding kind_match_def by auto
  have p: "prefix ''kind:'' s" using s by simp
  have d: "drop 5 s = ws @ ident @ rest" using s by simp
  obtain x xs where x: "ident = x # xs" using ne by (cases ident) auto
  then have wx: "py_isword x" using wd by simp
  then have nsx: "\<not> py_isspace x" using space_not_word by blast
  have u: "dropWhile py_isspace (drop 5 s) = ident @ rest"
    unfolding d using ws nsx x by (simp add: dropWhile_all_append)
  have tr: "takeWhile py_isword rest = []" using r by (cases rest) auto
  have dr: "dropWhile py_isword rest = rest" using r by (cases rest) auto
  have "takeWhile py_isword (ident @ rest) = ident"
    using wd tr by (simp add: takeWhile_all_append)
  moreover have "dropWhile py_isword (ident @ rest) = rest"
    using wd dr by (simp add: dropWhile_all_append)
  ultimately show "re_match kind_pattern s False [] = Some (ident, rest)"
    unfolding kind_pattern_match using p u x wx by (simp add: Let_def)
qed

lemma kind_match_at:
  "kind_match doc before ident rest =
     (\<exists>s. doc = before @ s \<and> re_match kind_pattern s False [] = Some (ident, rest))"
  unfolding kind_match_here unfolding kind_match_def by auto

lemma re_search_none:
  "(re_search pat s = None) = (\<forall>before s'. s = before @ s' \<longrightarrow> re_match pat s' False [] = None)"
proof (induction s)
  case Nil
  then show ?case by (auto split: option.splits)
next
  case (Cons c cs)
  show ?case
  proof
    assume n: "re_search pat (c # cs) = None"
    then have here: "re_match pat (c # cs) False [] = None"
      and later: "re_search pat cs = None"
      by (auto split: option.splits)
    show "\<forall>before s'. c # cs = before @ s' \<longrightarrow> re_match pat s' False [] = None"
    proof (intro allI impI)
      fix before s' assume e: "c # cs = before @ s'"
      show "re_match pat s' False [] = None"
      proof (cases before)
        case Nil
        with e here show ?thesis by simp
      next
        case (Cons b bs)
        with e have "cs = bs @ s'" by simp
        with later Cons.IH show ?thesis by blast
      qed
    qed
  next
    assume a: "\<forall>before s'. c # cs = before @ s' \<longrightarrow> re_match pat s' False [] = None"
    then have here: "re_match pat (c # cs) False [] = None" by (metis append_Nil)
    have "\<forall>before s'. cs = before @ s' \<longrightarrow> re_match pat s' False [] = None"
      using a by (metis append_Cons)
    then have "re_search pat cs = None" using Cons.IH by blast
    with here show "re_search pat (c # cs) = None" by simp
  qed
qed

lemma re_search_some:
  "re_search pat s = Some (before, grp, rest) \<Longrightarrow>
     \<exists>s'. s = before @ s' \<and> re_match pat s' False [] = Some (grp, rest) \<and>
       (\<forall>b t. s = b @ t \<and> length b < length before \<longrightarrow> re_match pat t False [] = None)"
proof (induction s arbitrary: before)
  case Nil
  then show ?case by (auto split: option.splits)
next
  case (Cons c cs)
  show ?case
  proof (cases "re_match pat (c # cs) False []")
    case (Some m)
    with Cons.prems show ?thesis by auto
  next
    case None
    with Cons.prems obtain bf where s: "re_search pat cs = Some (bf, grp, rest)"
      and b: "before = c # bf"
      by (auto split: option.splits)
    from Cons.IH [OF s] obtain s' where s': "cs = bf @ s'"
      and m: "re_match pat s' False [] = Some (grp, rest)"
      and first: "\<forall>b t. cs = b @ t \<and> length b < length bf \<longrightarrow> re_match pat t False [] = None"
      by blast
    have "\<forall>b' t. c # cs = b' @ t \<and> length b' < length before \<longrightarrow> re_match pat t False [] = None"
    proof (intro allI impI)
      fix b' t assume e: "c # cs = b' @ t \<and> length b' < length before"
      show "re_match pat t False [] = None"
      proof (cases b')
        case Nil
        with e None show ?thesis by simp
      next
        case (Cons x xs)
        with e b have "cs = xs @ t \<and> length xs < length bf" by simp
        with first show ?thesis by blast
      qed
    qed
    with s' m b show ?thesis by auto
  qed
qed

lemma first_kind_match_search:
  assumes "first_kind_match doc before ident rest"
  shows "re_search kind_pattern doc = Some (before, ident, rest)"
proof -
  from assms have km: "kind_match doc before ident rest"
    and first: "\<And>b i r. kind_match doc b i r \<Longrightarrow> length before \<le> length b"
    unfolding first_kind_match_def by blast+
  from km obtain s where s: "doc = before @ s"
    and m: "re_match kind_pattern s False [] = Some (ident, rest)"
    unfolding kind_match_at by blast
  have "re_search kind_pattern doc \<noteq> None"
    unfolding re_search_none using s m by auto
  then obtain b g r where sr: "re_search kind_pattern doc = Some (b, g, r)"
    by (cases "re_search kind_pattern doc") auto
  from re_search_some [OF sr] obtain s' where s': "doc = b @ s'"
    and m': "re_match kind_pattern s' False [] = Some (g, r)"
    and least: "\<forall>b' t. doc = b' @ t \<and> length b' < length b \<longrightarrow>
                  re_match kind_pattern t False [] = None"
    by blast
  have "kind_match doc b g r" unfolding kind_match_at using s' m' by blast
  then have le: "length before \<le> length b" by (rule first)
  have "\<not> length before < length b" using least s m by auto
  with le have "length before = length b" by simp
  with s s' have "before = b" "s = s'" by (metis append_eq_append_conv)+
  with m m' sr show ?thesis by simp
qed

lemma no_kind_match_search:
  "(re_search kind_pattern doc = None) = (\<nexists>before ident rest. kind_match doc before ident rest)"
proof -
  have "(\<exists>before ident rest. kind_match doc before ident rest) =
        (\<exists>before s. doc = before @ s \<and> re_match kind_pattern s False [] \<noteq> None)"
    unfolding kind_match_at by auto
  then show ?thesis unfolding re_search_none by auto
qed

lemma search_first_kind_match:
  assumes "re_search kind_pattern doc = Some (before, ident, rest)"
  shows "first_kind_match doc before ident rest"
proof -
  from re_search_some [OF assms] obtain s' where s': "doc = before @ s'"
    and m': "re_match kind_pattern s' False [] = Some (ident, rest)"
    and least: "\<forall>b' t. doc = b' @ t \<and> length b' < length before \<longrightarrow>
                  re_match kind_pattern t False [] = None"
    by blast
  have km: "kind_match doc before ident rest" unfolding kind_match_at using s' m' by blast
  have "length before \<le> length b" if "kind_match doc b i r" for b i r
  proof (rule ccontr)
    assume "\<not> length before \<le> length b"
    then have lt: "length b < length before" by simp
    from that obtain t where "doc = b @ t" "re_match kind_pattern t False [] = Some (i, r)"
      unfolding kind_match_at by blast
    with least lt show False by auto
  qed
  with km show ?thesis unfolding first_kind_match_def by blast
qed

lemma fallback_docs_nonempty: "list_all (\<lambda>doc. doc \<noteq> []) (fallback_docs output)"
  by (simp add: fallback_docs_def list_all_iff)

lemma fallback_result:
  assumes "marker_entries output = []"
  shows "parse_output output =
           dict_set_all []
             (map (\<lambda>(i, doc). (derive_filename i (k8s_strip_fences doc), k8s_strip_fences doc))
                (enumerate 0 (fallback_docs output)))"
proof -
  have "marker_writes output = []" using assms by (simp add: marker_writes_def)
  then show ?thesis
    unfolding parse_output_writes parse_writes_def fallback_writes_def by simp
qed

text \<open>
  Claim C7. The fragments of the fallback are not empty. The name of a fragment (after
  the fences are stripped) is the lowercased identifier of the first occurrence of
  \<open>kind: <identifier>\<close> in it, followed by \<open>.yaml\<close>; there is a first occurrence
  whenever there is one; and the name is \<open>manifest-<i + 1>.yaml\<close>, with \<open>i\<close> the index of
  the fragment among the fragments, when there is no occurrence. When the output has no
  file marker, the result is the dict of these assignments in the order of the
  fragments. On the raw input of the specification the result is the two entries
  \<open>pod.yaml\<close> and \<open>manifest-2.yaml\<close>.
\<close>

theorem C7_fallback_filenames:
  "(first_kind_match doc before ident rest \<longrightarrow>
      derive_filename i doc = py_lower ident @ ''.yaml'')
   \<and> ((\<exists>before ident rest. kind_match doc before ident rest) \<longrightarrow>
      (\<exists>before ident rest. first_kind_match doc before ident rest))
   \<and> ((\<nexists>before ident rest. kind_match doc before ident rest) \<longrightarrow>
      derive_filename i doc = ''manifest-'' @ str_of_nat (i + 1) @ ''.yaml'')
   \<and> list_all (\<lambda>doc. doc \<noteq> []) (fallback_docs output)
   \<and> (marker_entries output = [] \<longrightarrow>
      parse_output output =
        dict_set_all []
          (map (\<lambda>(i, doc). (derive_filename i (k8s_strip_fences doc), k8s_strip_fences doc))
             (enumerate 0 (fallback_docs output))))
   \<and> parse_output ''---\<newline>kind: Pod\<newline>x: 1\<newline>---\<newline>y: 2'' =
       [(''pod.yaml'', ''kind: Pod\<newline>x: 1''), (''manifest-2.yaml'', ''y: 2'')]"
proof (intro conjI impI)
  assume "first_kind_match doc before ident rest"
  then have "re_search kind_pattern doc = Some (before, ident, rest)"
    by (rule first_kind_match_search)
  then show "derive_filename i doc = py_lower ident @ ''.yaml''"
    by (simp add: derive_filename_def)
next
  assume "\<exists>before ident rest. kind_match doc before ident rest"
  then have "re_search kind_pattern doc \<noteq> None"
    unfolding no_kind_match_search by simp
  then obtain b g r where "re_search kind_pattern doc = Some (b, g, r)"
    by (cases "re_search kind_pattern doc") auto
  then have "first_kind_match doc b g r" by (rule search_first_kind_match)
  then show "\<exists>before ident rest. first_kind_match doc before ident rest" by blast
next
  assume "\<nexists>before ident rest. kind_match doc before ident rest"
  then have "re_search kind_pattern doc = None"
    unfolding no_kind_match_search .
  then show "derive_filename i doc = ''manifest-'' @ str_of_nat (i + 1) @ ''.yaml''"
    by (simp add: derive_filename_def)
next
  show "list_all (\<lambda>doc. doc \<noteq> []) (fallback_docs output)"
    by (rule fallback_docs_nonempty)
next
  assume "marker_entries output = []"
  then show "parse_output output =
        dict_set_all []
          (map (\<lambda>(i, doc). (derive_filename i (k8s_strip_fences doc), k8s_strip_fences doc))
             (enumerate 0 (fallback_docs output)))"
    by (rule fallback_result)
next
  show "parse_output ''---\<newline>kind: Pod\<newline>x: 1\<newline>---\<newline>y: 2'' =
       [(''pod.yaml'', ''kind: Pod\<newline>x: 1''), (''manifest-2.yaml'', ''y: 2'')]"
    by code_simp
qed

text \<open>
  A fragment whose kind is on its second line, after two blanks; a fragment without a
  kind, third in its list; and an output with a fenced fragment and a blank one.
\<close>

theorem C7_fallback_filenames_witness:
  "first_kind_match ''apiVersion: v1\<newline>kind:  ConfigMap\<newline>data: {}'' ''apiVersion: v1\<newline>'' ''ConfigMap''
     ''\<newline>data: {}'' \<and>
   derive_filename 0 ''apiVersion: v1\<newline>kind:  ConfigMap\<newline>data: {}'' = ''configmap.yaml'' \<and>
   (\<nexists>before ident rest. kind_match ''replicas: 3'' before ident rest) \<and>
   derive_filename 2 ''replicas: 3'' = ''manifest-3.yaml'' \<and>
   marker_entries ''```yaml\<newline>kind: Service\<newline>```\<newline>---\<newline>replicas: 3\<newline>---\<newline> \<newline>'' = [] \<and>
   parse_output ''```yaml\<newline>kind: Service\<newline>```\<newline>---\<newline>replicas: 3\<newline>---\<newline> \<newline>'' =
     [(''service.yaml'', ''kind: Service''), (''manifest-2.yaml'', ''replicas: 3'')]"
proof -
  let ?doc = "''apiVersion: v1\<newline>kind:  ConfigMap\<newline>data: {}''"
  let ?out = "''```yaml\<newline>kind: Service\<newline>```\<newline>---\<newline>replicas: 3\<newline>---\<newline> \<newline>''"
  have "re_search kind_pattern ?doc = Some (''apiVersion: v1\<newline>'', ''ConfigMap'', ''\<newline>data: {}'')"
    by code_simp
  then have h1: "first_kind_match ?doc ''apiVersion: v1\<newline>'' ''ConfigMap'' ''\<newline>data: {}''"
    by (rule search_first_kind_match)
  have "re_search kind_pattern ''replicas: 3'' = None" by code_simp
  then have h2: "\<nexists>before ident rest. kind_match ''replicas: 3'' before ident rest"
    unfolding no_kind_match_search .
  have h3: "marker_entries ?out = []" by code_simp
  have lower: "py_lower ''ConfigMap'' = ''configmap''" by code_simp
  have num: "str_of_nat 3 = ''3''" by code_simp
  have docs: "fallback_docs ?out = [''```yaml\<newline>kind: Service\<newline>```'', ''replicas: 3'']"
    by code_simp
  have w: "dict_set_all []
          (map (\<lambda>(i, doc). (derive_filename i (k8s_strip_fences doc), k8s_strip_fences doc))
             (enumerate 0 [''```yaml\<newline>kind: Service\<newline>```'', ''replicas: 3''])) =
        [(''service.yaml'', ''kind: Service''), (''manifest-2.yaml'', ''replicas: 3'')]"
    by code_simp
  have c1: "derive_filename 0 ?doc = py_lower ''ConfigMap'' @ ''.yaml''"
    using C7_fallback_filenames [of ?doc "''apiVersion: v1\<newline>''" "''ConfigMap''" "''\<newline>data: {}''" 0 ?out]
      h1 by blast
  have c2: "derive_filename 2 ''replicas: 3'' = ''manifest-'' @ str_of_nat (2 + 1) @ ''.yaml''"
    using C7_fallback_filenames [of "''replicas: 3''" "[]" "[]" "[]" 2 ?out] h2 by blast
  have c3: "parse_output ?out =
        dict_set_all []
          (map (\<lambda>(i, doc). (derive_filename i (k8s_strip_fences doc), k8s_strip_fences doc))
             (enumerate 0 (fallback_docs ?out)))"
    using C7_fallback_filenames [of ?doc "''apiVersion: v1\<newline>''" "''ConfigMap''" "''\<newline>data: {}''" 0 ?out]
      h3 by blast
  have d1: "derive_filename 0 ?doc = ''configmap.yaml''" using c1 lower by simp
  have d2: "derive_filename 2 ''replicas: 3'' = ''manifest-3.yaml''" using c2 num by simp
  have d3: "parse_output ?out =
     [(''service.yaml'', ''kind: Service''), (''manifest-2.yaml'', ''replicas: 3'')]"
    using c3 unfolding docs w .
  from h1 d1 h2 d2 h3 d3 show ?thesis by blast
qed

end
